theory Spec2Isabelle
  imports Complex_Main
begin

section \<open>Python strings\<close>

text \<open>
  A Python \<open>str\<close> is modelled as a \<open>string\<close>; a \<open>char\<close> stands for the code point
  of the same number (U+0000 to U+00FF).  The character classes below are the ones of
  CPython for these code points: \<open>str.isspace\<close> (used by \<open>strip\<close>, \<open>split\<close> and the
  regex class \<open>\s\<close>), the decimal digits of \<open>\d\<close>, the alphanumerics of \<open>\w\<close>, the
  line boundaries of \<open>splitlines\<close> and the mapping of \<open>str.lower\<close>.
  Confidences are Python floats that are only compared, never computed with; they are
  modelled as reals.
\<close>

definition ord :: "char \<Rightarrow> nat" where
  "ord c = of_char c"

definition is_space :: "char \<Rightarrow> bool" where
  "is_space c = (ord c \<in> set [9, 10, 11, 12, 13, 28, 29, 30, 31, 32, 133, 160])"

definition is_digit :: "char \<Rightarrow> bool" where
  "is_digit c = (48 \<le> ord c \<and> ord c \<le> 57)"

definition is_alnum :: "char \<Rightarrow> bool" where
  "is_alnum c = (let n = ord c in
     (48 \<le> n \<and> n \<le> 57) \<or> (65 \<le> n \<and> n \<le> 90) \<or> (97 \<le> n \<and> n \<le> 122) \<or>
     n \<in> set [170, 178, 179, 181, 185, 186, 188, 189, 190] \<or>
     (192 \<le> n \<and> n \<le> 214) \<or> (216 \<le> n \<and> n \<le> 246) \<or> (248 \<le> n \<and> n \<le> 255))"

definition is_word :: "char \<Rightarrow> bool" where
  "is_word c = (is_alnum c \<or> c = CHR ''_'')"

definition is_linebreak :: "char \<Rightarrow> bool" where
  "is_linebreak c = (ord c \<in> set [10, 11, 12, 13, 28, 29, 30, 133])"

definition lower_chr :: "char \<Rightarrow> char" where
  "lower_chr c = (let n = ord c in
     if (65 \<le> n \<and> n \<le> 90) \<or> (192 \<le> n \<and> n \<le> 222 \<and> n \<noteq> 215)
     then char_of (n + 32) else c)"

definition lower :: "string \<Rightarrow> string" where
  "lower s = map lower_chr s"

definition strip :: "string \<Rightarrow> string" where
  "strip s = rev (dropWhile is_space (rev (dropWhile is_space s)))"

text \<open>\<open>str.split()\<close> without arguments: the maximal runs of non-whitespace.\<close>

fun split_acc :: "string \<Rightarrow> string \<Rightarrow> string list" where
  "split_acc w [] = (if w = [] then [] else [w])"
| "split_acc w (c # cs) =
     (if is_space c then (if w = [] then split_acc [] cs else w # split_acc [] cs)
      else split_acc (w @ [c]) cs)"

definition split_ws :: "string \<Rightarrow> string list" where
  "split_ws s = split_acc [] s"

fun join :: "string \<Rightarrow> string list \<Rightarrow> string" where
  "join sep [] = []"
| "join sep [x] = x"
| "join sep (x # y # ys) = x @ sep @ join sep (y # ys)"

text \<open>\<open>str.splitlines()\<close>: a line ends at a line boundary; CR LF counts once; the text
  after the last boundary is a line only when it is not empty.\<close>

fun splitlines_acc :: "string \<Rightarrow> string \<Rightarrow> string list" where
  "splitlines_acc cur [] = (if cur = [] then [] else [cur])"
| "splitlines_acc cur [c] = (if is_linebreak c then [cur] else [cur @ [c]])"
| "splitlines_acc cur (c # d # cs) =
     (if ord c = 13 \<and> ord d = 10 then cur # splitlines_acc [] cs
      else if is_linebreak c then cur # splitlines_acc [] (d # cs)
      else splitlines_acc (cur @ [c]) (d # cs))"

definition splitlines :: "string \<Rightarrow> string list" where
  "splitlines s = splitlines_acc [] s"

primrec startswith :: "string \<Rightarrow> string \<Rightarrow> bool" where
  "startswith [] s = True"
| "startswith (a # as) s = (case s of [] \<Rightarrow> False | c # cs \<Rightarrow> a = c \<and> startswith as cs)"

text \<open>\<open>sub in s\<close>\<close>

fun contains :: "string \<Rightarrow> string \<Rightarrow> bool" where
  "contains sub [] = startswith sub []"
| "contains sub (c # cs) = (startswith sub (c # cs) \<or> contains sub cs)"

text \<open>\<open>x or d\<close> on an optional string: \<open>None\<close> and the empty string are falsy.\<close>

definition or_str :: "string option \<Rightarrow> string \<Rightarrow> string" where
  "or_str v d = (case v of None \<Rightarrow> d | Some s \<Rightarrow> if s = [] then d else s)"

definition or_none :: "string \<Rightarrow> string option" where
  "or_none s = (if s = [] then None else Some s)"

section \<open>The regular expressions of \<open>re\<close> that the agents use\<close>

datatype catom = Lit char | Digit | Space | Word

datatype re =
    Eps
  | Any
  | Chr catom
  | Cls "catom list"
  | Seq re re
  | Alt re re
  | Star re
  | Grp nat re
  | WordB
  | NotBehind catom
  | NotAhead catom

text \<open>With \<open>re.IGNORECASE\<close> (\<open>ic\<close>) a literal matches the characters that lower to the
  same character.\<close>

fun amatch :: "bool \<Rightarrow> catom \<Rightarrow> char \<Rightarrow> bool" where
  "amatch ic (Lit a) c = (if ic then lower_chr c = lower_chr a else c = a)"
| "amatch ic Digit c = is_digit c"
| "amatch ic Space c = is_space c"
| "amatch ic Word c = is_word c"

definition Opt :: "re \<Rightarrow> re" where
  "Opt r = Alt r Eps"

definition Plus :: "re \<Rightarrow> re" where
  "Plus r = Seq r (Star r)"

primrec rep_n :: "nat \<Rightarrow> re \<Rightarrow> re" where
  "rep_n 0 r = Eps"
| "rep_n (Suc n) r = Seq r (rep_n n r)"

primrec rep_upto :: "nat \<Rightarrow> re \<Rightarrow> re" where
  "rep_upto 0 r = Eps"
| "rep_upto (Suc n) r = Opt (Seq r (rep_upto n r))"

text \<open>\<open>r{lo,hi}\<close>, greedy.\<close>

definition rep_range :: "nat \<Rightarrow> nat \<Rightarrow> re \<Rightarrow> re" where
  "rep_range lo hi r = Seq (rep_n lo r) (rep_upto (hi - lo) r)"

definition lits :: "string \<Rightarrow> re" where
  "lits s = foldr (\<lambda>c r. Seq (Chr (Lit c)) r) s Eps"

definition seqs :: "re list \<Rightarrow> re" where
  "seqs rs = foldr Seq rs Eps"

text \<open>
  A matcher state is the character before the position (for \<open>\b\<close> and the lookbehind),
  the text from the position on, and the groups captured so far.  \<open>rmatch ic r st\<close> lists
  the states in which a match of \<open>r\<close> from \<open>st\<close> can end, in the order in which the
  backtracking matcher of \<open>re\<close> tries them: greedy repetition takes one more round before
  it stops, alternation takes the left branch first.  The match that \<open>re\<close> reports is
  the first of the list.  A round of \<open>Star\<close> has to consume a character; every starred
  pattern of the agents does.
\<close>

type_synonym groups = "nat \<Rightarrow> string option"
type_synonym mstate = "char option \<times> string \<times> groups"

definition word_opt :: "char option \<Rightarrow> bool" where
  "word_opt p = (case p of None \<Rightarrow> False | Some c \<Rightarrow> is_word c)"

definition next_chr :: "string \<Rightarrow> char option" where
  "next_chr s = (case s of [] \<Rightarrow> None | c # _ \<Rightarrow> Some c)"

definition atom_opt :: "catom \<Rightarrow> char option \<Rightarrow> bool" where
  "atom_opt a p = (case p of None \<Rightarrow> False | Some c \<Rightarrow> amatch False a c)"

function rmatch :: "bool \<Rightarrow> re \<Rightarrow> mstate \<Rightarrow> mstate list" where
  "rmatch ic Eps st = [st]"
| "rmatch ic Any (p, s, g) =
     (case s of [] \<Rightarrow> [] | c # cs \<Rightarrow> if ord c \<noteq> 10 then [(Some c, cs, g)] else [])"
| "rmatch ic (Chr a) (p, s, g) =
     (case s of [] \<Rightarrow> [] | c # cs \<Rightarrow> if amatch ic a c then [(Some c, cs, g)] else [])"
| "rmatch ic (Cls as) (p, s, g) =
     (case s of [] \<Rightarrow> [] | c # cs \<Rightarrow> if list_ex (\<lambda>a. amatch ic a c) as then [(Some c, cs, g)] else [])"
| "rmatch ic (Seq a b) st = concat (map (rmatch ic b) (rmatch ic a st))"
| "rmatch ic (Alt a b) st = rmatch ic a st @ rmatch ic b st"
| "rmatch ic (Star r) (p, s, g) =
     concat (map (\<lambda>(p', s', g'). if length s' < length s then rmatch ic (Star r) (p', s', g') else [])
                 (rmatch ic r (p, s, g)))
     @ [(p, s, g)]"
| "rmatch ic (Grp n r) (p, s, g) =
     map (\<lambda>(p', s', g'). (p', s', g'(n \<mapsto> take (length s - length s') s))) (rmatch ic r (p, s, g))"
| "rmatch ic WordB (p, s, g) =
     (if word_opt p \<noteq> word_opt (next_chr s) then [(p, s, g)] else [])"
| "rmatch ic (NotBehind a) (p, s, g) = (if atom_opt a p then [] else [(p, s, g)])"
| "rmatch ic (NotAhead a) (p, s, g) = (if atom_opt a (next_chr s) then [] else [(p, s, g)])"
  by pat_completeness auto
termination
  by (relation "inv_image (less_than <*lex*> less_than) (\<lambda>(ic, r, p, s, g). (size r, length s))") auto

text \<open>What a match object gives: the text skipped before the match and the character
  just before it, the matched text, the groups, and the position after the match.\<close>

record match =
  skipped :: string
  before :: "char option"
  matched :: string
  groups_of :: groups
  after_prev :: "char option"
  after :: string

definition mk_match :: "string \<Rightarrow> char option \<Rightarrow> string \<Rightarrow> mstate \<Rightarrow> match" where
  "mk_match skip p s st = (case st of (p', s', g) \<Rightarrow>
     \<lparr>skipped = skip, before = p, matched = take (length s - length s') s, groups_of = g,
      after_prev = p', after = s'\<rparr>)"

text \<open>\<open>pattern.search\<close>: the first match at the leftmost position that has one.\<close>

fun search_from :: "bool \<Rightarrow> re \<Rightarrow> string \<Rightarrow> char option \<Rightarrow> string \<Rightarrow> match option" where
  "search_from ic r skip p [] =
     (case rmatch ic r (p, [], Map.empty) of [] \<Rightarrow> None | st # _ \<Rightarrow> Some (mk_match skip p [] st))"
| "search_from ic r skip p (c # cs) =
     (case rmatch ic r (p, c # cs, Map.empty) of
        [] \<Rightarrow> search_from ic r (skip @ [c]) (Some c) cs
      | st # _ \<Rightarrow> Some (mk_match skip p (c # cs) st))"

definition re_search :: "bool \<Rightarrow> re \<Rightarrow> string \<Rightarrow> match option" where
  "re_search ic r s = search_from ic r [] None s"

text \<open>\<open>match.group(n)\<close>\<close>

definition group :: "match \<Rightarrow> nat \<Rightarrow> string option" where
  "group m n = groups_of m n"

text \<open>The successive non-overlapping matches, as \<open>findall\<close> and \<open>sub\<close> scan them.  The
  patterns scanned this way never match the empty string, so the scan goes on from the
  end of each match.\<close>

function find_from :: "bool \<Rightarrow> re \<Rightarrow> char option \<Rightarrow> string \<Rightarrow> match list" where
  "find_from ic r p s =
     (case search_from ic r [] p s of
        None \<Rightarrow> []
      | Some m \<Rightarrow> m # (if length (after m) < length s then find_from ic r (after_prev m) (after m) else []))"
  by pat_completeness auto
termination
  by (relation "measure (\<lambda>(ic, r, p, s). length s)") auto

text \<open>\<open>findall\<close> of a pattern with one group lists that group (the empty string when the
  group took no part), of a pattern without groups the whole match.\<close>

definition findall1 :: "bool \<Rightarrow> re \<Rightarrow> string \<Rightarrow> string list" where
  "findall1 ic r s = map (\<lambda>m. case group m 1 of None \<Rightarrow> [] | Some x \<Rightarrow> x) (find_from ic r None s)"

definition findall0 :: "bool \<Rightarrow> re \<Rightarrow> string \<Rightarrow> string list" where
  "findall0 ic r s = map matched (find_from ic r None s)"

function sub_from :: "bool \<Rightarrow> re \<Rightarrow> string \<Rightarrow> char option \<Rightarrow> string \<Rightarrow> string" where
  "sub_from ic r repl p s =
     (case search_from ic r [] p s of
        None \<Rightarrow> s
      | Some m \<Rightarrow> skipped m @ repl @
          (if length (after m) < length s then sub_from ic r repl (after_prev m) (after m) else after m))"
  by pat_completeness auto
termination
  by (relation "measure (\<lambda>(ic, r, repl, p, s). length s)") auto

definition re_sub :: "bool \<Rightarrow> re \<Rightarrow> string \<Rightarrow> string \<Rightarrow> string" where
  "re_sub ic r repl s = sub_from ic r repl None s"

abbreviation Dgt :: re where
  "Dgt \<equiv> Chr Digit"

abbreviation Spc :: re where
  "Spc \<equiv> Chr Space"

abbreviation Ch :: "char \<Rightarrow> re" where
  "Ch c \<equiv> Chr (Lit c)"

text \<open>\<^verbatim>\<open>(\d{1,2}[/-]\d{1,2}[/-]\d{2,4}|\d{4}[/-]\d{1,2}[/-]\d{1,2})\<close>\<close>

definition DATE_PAT :: re where
  "DATE_PAT = Grp 1 (Alt
     (seqs [rep_range 1 2 Dgt, Cls [Lit CHR ''/'', Lit CHR ''-''], rep_range 1 2 Dgt,
            Cls [Lit CHR ''/'', Lit CHR ''-''], rep_range 2 4 Dgt])
     (seqs [rep_n 4 Dgt, Cls [Lit CHR ''/'', Lit CHR ''-''], rep_range 1 2 Dgt,
            Cls [Lit CHR ''/'', Lit CHR ''-''], rep_range 1 2 Dgt]))"

text \<open>\<^verbatim>\<open>(?<!\d)(\d{1,3}(?:,\d{3})*(?:\.\d{2})|\d+\.\d{2})(?!\d)\<close>\<close>

definition MONEY_PAT :: re where
  "MONEY_PAT = seqs [NotBehind Digit,
     Grp 1 (Alt
       (seqs [rep_range 1 3 Dgt, Star (seqs [Ch CHR '','', rep_n 3 Dgt]), seqs [Ch CHR ''.'', rep_n 2 Dgt]])
       (seqs [Plus Dgt, Ch CHR ''.'', rep_n 2 Dgt])),
     NotAhead Digit]"

text \<open>\<^verbatim>\<open>\b(\d{9})(?:\s*RT\s*0001)?\b\<close>, with \<open>re.IGNORECASE\<close>\<close>

definition HST_PAT :: re where
  "HST_PAT = seqs [WordB, Grp 1 (rep_n 9 Dgt),
     Opt (seqs [Star Spc, lits ''RT'', Star Spc, lits ''0001'']), WordB]"

text \<open>\<^verbatim>\<open>vendor[:\s]+(.+)\<close>\<close>

definition vendor_re :: re where
  "vendor_re = seqs [lits ''vendor'', Plus (Cls [Lit CHR '':'', Space]), Grp 1 (Plus Any)]"

text \<open>\<^verbatim>\<open>invoice\s*(no\.?|#)?[:\s]*([\w-]+)\<close>\<close>

definition invoice_re :: re where
  "invoice_re = seqs [lits ''invoice'', Star Spc,
     Opt (Grp 1 (Alt (seqs [lits ''no'', Opt (Ch CHR ''.'')]) (Ch CHR ''#''))),
     Star (Cls [Lit CHR '':'', Space]),
     Grp 2 (Plus (Cls [Word, Lit CHR ''-'']))]"

text \<open>\<^verbatim>\<open>INV[\w-]+\<close>\<close>

definition inv_re :: re where
  "inv_re = seqs [lits ''INV'', Plus (Cls [Word, Lit CHR ''-''])]"

text \<open>\<^verbatim>\<open>\d{2,4}\s+\<close>\<close>

definition street_no_re :: re where
  "street_no_re = seqs [rep_range 2 4 Dgt, Plus Spc]"

text \<open>\<^verbatim>\<open>\b(\d+(?:\.\d+)?)\b\<close>\<close>

definition qty_re :: re where
  "qty_re = seqs [WordB, Grp 1 (seqs [Plus Dgt, Opt (seqs [Ch CHR ''.'', Plus Dgt])]), WordB]"

text \<open>\<^verbatim>\<open>{label}\s*[:$]?\s*(\d[\d,]*\.\d{2})\<close>, the pattern of \<open>agent_tax\<close> and
  \<open>agent_amount\<close>.  The label is read as literal characters: the labels that
  \<open>run_agents\<close> passes (HST, PST, GST, Subtotal, Total) have no character that is
  special in a pattern.\<close>

definition labelled_amount_re :: "string \<Rightarrow> re" where
  "labelled_amount_re label = seqs [lits label, Star Spc, Opt (Cls [Lit CHR '':'', Lit CHR ''$'']), Star Spc,
     Grp 1 (seqs [Dgt, Star (Cls [Digit, Lit CHR '','']), Ch CHR ''.'', rep_n 2 Dgt])]"

section \<open>Field agents\<close>

text \<open>A line-item row, a Python dict with these six keys.\<close>

record row =
  qty :: string
  description :: string
  coding :: string
  unit_price :: string
  tax :: string
  line_total :: string

text \<open>The values of a \<open>meta\<close> dict are strings; the text \<open>json.dumps(chunk)\<close> of a list of
  strings is kept as the list it encodes.\<close>

datatype mval = MStr string | MJson "string list"

text \<open>\<open>AgentResult\<close>.  The value of the line-item agent is the text \<open>json.dumps(rows)\<close>;
  it is kept as the row list it encodes, so that agent has values of type \<open>row list\<close>
  and the others of type \<open>string\<close>.\<close>

record 'v AgentResult =
  ar_value :: "'v option"
  confidence :: real
  meta :: "(string \<times> mval) list"

definition clean_text :: "string option \<Rightarrow> string" where
  "clean_text text = strip (re_sub False (Plus Spc) '' '' (or_str text ''''))"

text \<open>\<open>[l.strip() for l in text.splitlines() if l.strip()]\<close>\<close>

definition stripped_lines :: "string \<Rightarrow> string list" where
  "stripped_lines text = map strip (filter (\<lambda>l. strip l \<noteq> []) (splitlines text))"

definition agent_vendor :: "string \<Rightarrow> string AgentResult" where
  "agent_vendor text =
     (case re_search True vendor_re text of
        Some m \<Rightarrow> \<lparr>ar_value = Some (clean_text (group m 1)), confidence = 0.9,
                   meta = [(''source'', MStr ''keyword'')]\<rparr>
      | None \<Rightarrow>
          (case stripped_lines text of
             l # _ \<Rightarrow> \<lparr>ar_value = Some (take 120 l), confidence = 0.4,
                        meta = [(''source'', MStr ''first-line'')]\<rparr>
           | [] \<Rightarrow> \<lparr>ar_value = None, confidence = 0.0, meta = [(''source'', MStr ''none'')]\<rparr>))"

definition agent_hst :: "string \<Rightarrow> string AgentResult" where
  "agent_hst text =
     (case re_search True HST_PAT text of
        Some m \<Rightarrow> \<lparr>ar_value = Some ((case group m 1 of None \<Rightarrow> ''None'' | Some number \<Rightarrow> number) @ '' RT0001''),
                   confidence = 0.85,
                   meta = [(''source'', MStr ''regex'')]\<rparr>
      | None \<Rightarrow> \<lparr>ar_value = None, confidence = 0.0, meta = [(''source'', MStr ''none'')]\<rparr>)"

text \<open>The loop of \<open>agent_address\<close> over \<open>enumerate(blocks)\<close>: \<open>rest\<close> is \<open>blocks[idx:]\<close>.\<close>

fun address_candidates :: "string list \<Rightarrow> string AgentResult list" where
  "address_candidates [] = []"
| "address_candidates (line # rest) =
     (if contains ''street'' (lower line) \<or> re_search False street_no_re line \<noteq> None
      then [\<lparr>ar_value = Some (join [CHR 0x0A] (take 4 (line # rest))), confidence = 0.75,
             meta = [(''source'', MStr ''street''), (''lines'', MJson (take 4 (line # rest)))]\<rparr>]
      else [])
     @ address_candidates rest"

text \<open>\<open>max(candidates, key=lambda c: c.confidence)\<close> on a non-empty list: the first
  candidate of the highest confidence.\<close>

fun max_conf :: "'v AgentResult \<Rightarrow> 'v AgentResult list \<Rightarrow> 'v AgentResult" where
  "max_conf best [] = best"
| "max_conf best (c # cs) = (if confidence c > confidence best then max_conf c cs else max_conf best cs)"

definition agent_address :: "string \<Rightarrow> string AgentResult" where
  "agent_address text =
     (let blocks = stripped_lines text in
      case address_candidates blocks of
        c # cs \<Rightarrow> max_conf c cs
      | [] \<Rightarrow>
          (if blocks \<noteq> []
           then \<lparr>ar_value = Some (join [CHR 0x0A] (take 3 blocks)), confidence = 0.4,
                 meta = [(''source'', MStr ''top-lines'')]\<rparr>
           else \<lparr>ar_value = None, confidence = 0.0, meta = [(''source'', MStr ''none'')]\<rparr>))"

definition agent_description :: "string \<Rightarrow> string AgentResult" where
  "agent_description text =
     (let lines = stripped_lines text in
      case filter (\<lambda>line. contains ''description'' (lower line)) lines of
        line # _ \<Rightarrow> \<lparr>ar_value = Some line, confidence = 0.6, meta = [(''source'', MStr ''keyword'')]\<rparr>
      | [] \<Rightarrow>
          (let snippet = (if lines \<noteq> [] then Some (take 200 (join '' '' (take 2 lines))) else None) in
           \<lparr>ar_value = snippet, confidence = (if or_str snippet '''' \<noteq> [] then 0.3 else 0.0),
            meta = [(''source'', MStr ''snippet'')]\<rparr>))"

definition agent_invoice_number :: "string \<Rightarrow> string AgentResult" where
  "agent_invoice_number text =
     (case re_search True invoice_re text of
        Some m \<Rightarrow> \<lparr>ar_value = group m 2, confidence = 0.9, meta = [(''source'', MStr ''regex'')]\<rparr>
      | None \<Rightarrow>
          (case findall0 False inv_re text of
             g # _ \<Rightarrow> \<lparr>ar_value = Some g, confidence = 0.5, meta = [(''source'', MStr ''inv'')]\<rparr>
           | [] \<Rightarrow> \<lparr>ar_value = None, confidence = 0.0, meta = [(''source'', MStr ''none'')]\<rparr>))"

text \<open>\<open>dateutil\<close> is not part of the repository: \<open>parse raw\<close> is the ISO date of
  \<open>dateparser.parse(raw, dayfirst=False)\<close>, and \<open>None\<close> when that call returns nothing
  or raises \<open>ValueError\<close> or \<open>OverflowError\<close>.\<close>

definition agent_invoice_date :: "(string \<Rightarrow> string option) \<Rightarrow> string \<Rightarrow> string AgentResult" where
  "agent_invoice_date parse text =
     (case re_search False DATE_PAT text of
        None \<Rightarrow> \<lparr>ar_value = None, confidence = 0.0, meta = [(''source'', MStr ''none'')]\<rparr>
      | Some m \<Rightarrow>
          (let raw = or_str (group m 1) '''' in
           case parse raw of
             Some isodate \<Rightarrow> \<lparr>ar_value = Some isodate, confidence = 0.8, meta = [(''raw'', MStr raw)]\<rparr>
           | None \<Rightarrow> \<lparr>ar_value = Some raw, confidence = 0.5, meta = [(''source'', MStr ''unparsed'')]\<rparr>))"

text \<open>\<open>str(n)\<close> of a natural number.\<close>

function str_nat :: "nat \<Rightarrow> string" where
  "str_nat n = (if n < 10 then [char_of (48 + n)] else str_nat (n div 10) @ [char_of (48 + n mod 10)])"
  by pat_completeness auto
termination
  by (relation "measure id") auto

text \<open>The body of the loop of \<open>agent_line_items\<close>: the row that a line appends, if it
  appends one.  Group 1 of the quantity pattern is the whole match between the two
  boundaries, so it always takes part.\<close>

definition line_row :: "string \<Rightarrow> row option" where
  "line_row line =
     (let numbers = findall1 False MONEY_PAT line;
          qty_match = re_search False qty_re line
      in case qty_match of
           None \<Rightarrow> None
         | Some m \<Rightarrow>
             if length numbers \<ge> 1
             then Some \<lparr>qty = or_str (group m 1) '''',
                        description = strip (take 80 line),
                        coding = '''',
                        unit_price = numbers ! 0,
                        tax = (if length numbers > 1 then numbers ! 1 else ''''),
                        line_total = last numbers\<rparr>
             else None)"

fun line_loop :: "row list \<Rightarrow> string list \<Rightarrow> row list" where
  "line_loop rows [] = rows"
| "line_loop rows (line # lines) =
     line_loop (case line_row line of None \<Rightarrow> rows | Some r \<Rightarrow> rows @ [r]) lines"

definition agent_line_items :: "string \<Rightarrow> row list AgentResult" where
  "agent_line_items text =
     (let lines = filter (\<lambda>l. strip l \<noteq> []) (splitlines text);
          rows = line_loop [] lines
      in if rows \<noteq> []
         then \<lparr>ar_value = Some rows, confidence = 0.6, meta = [(''count'', MStr (str_nat (length rows)))]\<rparr>
         else \<lparr>ar_value = Some [], confidence = 0.1, meta = [(''source'', MStr ''none'')]\<rparr>)"

definition agent_tax :: "string \<Rightarrow> string \<Rightarrow> string AgentResult" where
  "agent_tax text tax_label =
     (case re_search True (labelled_amount_re tax_label) text of
        Some m \<Rightarrow> \<lparr>ar_value = group m 1, confidence = 0.85, meta = [(''source'', MStr ''regex'')]\<rparr>
      | None \<Rightarrow> \<lparr>ar_value = None, confidence = 0.0, meta = [(''source'', MStr ''none'')]\<rparr>)"

definition agent_amount :: "string \<Rightarrow> string \<Rightarrow> string AgentResult" where
  "agent_amount text label =
     (case re_search True (labelled_amount_re label) text of
        Some m \<Rightarrow> \<lparr>ar_value = group m 1, confidence = 0.9, meta = [(''source'', MStr ''regex'')]\<rparr>
      | None \<Rightarrow>
          (let totals = findall1 False MONEY_PAT text in
           if totals \<noteq> []
           then \<lparr>ar_value = Some (last totals), confidence = 0.4, meta = [(''source'', MStr ''fallback'')]\<rparr>
           else \<lparr>ar_value = None, confidence = 0.0, meta = [(''source'', MStr ''none'')]\<rparr>))"

section \<open>Consensus selector\<close>

definition pick_text :: "'a \<Rightarrow> 'a \<Rightarrow> real \<Rightarrow> real \<Rightarrow> 'a \<times> real \<times> string" where
  "pick_text native ocr_text native_conf ocr_conf =
     (if native_conf > ocr_conf then (native, native_conf, ''native'')
      else if ocr_conf > native_conf then (ocr_text, ocr_conf, ''ocr'')
      else (native, native_conf, ''native''))"


section \<open>The agent pipeline\<close>

text \<open>An entry of the dict that \<open>run_agents\<close> returns.  Its value is a string, or for
  \<open>line_items\<close> the list that \<open>json.loads\<close> reads back; its \<open>meta\<close> dict has the key
  \<open>picked\<close> and, for the six scalar agents, \<open>native\<close>, \<open>ocr\<close> and (when the value is
  not empty) \<open>value\<close>.\<close>

datatype pyval = Str string | Rows "row list"

record field_meta =
  picked :: string
  native_meta :: "(string \<times> mval) list option"
  ocr_meta :: "(string \<times> mval) list option"
  meta_value :: "string option"

record FieldResult =
  fr_value :: "pyval option"
  fr_confidence :: real
  fr_meta :: field_meta

text \<open>\<open>max(a, b)\<close> of Python: \<open>b\<close> only when it is strictly greater.\<close>

definition py_max :: "real \<Rightarrow> real \<Rightarrow> real" where
  "py_max a b = (if b > a then b else a)"

definition skip_result :: "'v option \<Rightarrow> 'v AgentResult" where
  "skip_result v = \<lparr>ar_value = v, confidence = 0.0, meta = [(''source'', MStr ''skip'')]\<rparr>"

text \<open>The body of the first loop: the entry of a scalar agent.\<close>

definition scalar_entry :: "string AgentResult \<Rightarrow> string AgentResult \<Rightarrow> FieldResult" where
  "scalar_entry native_result ocr_result =
     (case pick_text (or_str (ar_value native_result) '''') (or_str (ar_value ocr_result) '''')
             (confidence native_result) (confidence ocr_result) of
        (v, conf, pk) \<Rightarrow>
          \<lparr>fr_value = map_option Str (or_none v),
           fr_confidence = py_max (confidence native_result) (confidence ocr_result),
           fr_meta = \<lparr>picked = pk, native_meta = Some (meta native_result),
                      ocr_meta = Some (meta ocr_result), meta_value = or_none v\<rparr>\<rparr>)"

text \<open>The line-item entry.  The JSON text of an agent result is never empty, so
  \<open>value or "[]"\<close> is the value, and \<open>"[]"\<close> when there is none.\<close>

definition lines_entry :: "row list AgentResult \<Rightarrow> row list AgentResult \<Rightarrow> FieldResult" where
  "lines_entry native_lines ocr_lines =
     (case pick_text (case ar_value native_lines of None \<Rightarrow> [] | Some rows \<Rightarrow> rows)
             (case ar_value ocr_lines of None \<Rightarrow> [] | Some rows \<Rightarrow> rows)
             (confidence native_lines) (confidence ocr_lines) of
        (line_value, conf, pk) \<Rightarrow>
          \<lparr>fr_value = Some (Rows line_value),
           fr_confidence = py_max (confidence native_lines) (confidence ocr_lines),
           fr_meta = \<lparr>picked = pk, native_meta = None, ocr_meta = None, meta_value = None\<rparr>\<rparr>)"

text \<open>The body of the last two loops: the entry of a tax or amount agent.\<close>

definition picked_entry :: "string AgentResult \<Rightarrow> string AgentResult \<Rightarrow> FieldResult" where
  "picked_entry native_result ocr_result =
     (case pick_text (or_str (ar_value native_result) '''') (or_str (ar_value ocr_result) '''')
             (confidence native_result) (confidence ocr_result) of
        (v, conf, pk) \<Rightarrow>
          \<lparr>fr_value = map_option Str (or_none v),
           fr_confidence = conf,
           fr_meta = \<lparr>picked = pk, native_meta = None, ocr_meta = None, meta_value = None\<rparr>\<rparr>)"

text \<open>\<open>func(ocr_text) if ocr_text else AgentResult(...)\<close>\<close>

definition on_ocr :: "(string \<Rightarrow> 'v AgentResult) \<Rightarrow> string \<Rightarrow> 'v option \<Rightarrow> 'v AgentResult" where
  "on_ocr func ocr_text v = (if ocr_text \<noteq> [] then func ocr_text else skip_result v)"

text \<open>\<open>run_agents\<close>, from the two texts that \<open>extract_pdf_text\<close> and
  \<open>extract_ocr_space\<close> return for the path.\<close>

definition agents :: "(string \<Rightarrow> string option) \<Rightarrow> (string \<times> (string \<Rightarrow> string AgentResult)) list" where
  "agents parse =
     [(''vendor'', agent_vendor),
      (''hst'', agent_hst),
      (''address'', agent_address),
      (''description'', agent_description),
      (''invoice_number'', agent_invoice_number),
      (''invoice_date'', agent_invoice_date parse)]"

definition run_agents :: "(string \<Rightarrow> string option) \<Rightarrow> string \<Rightarrow> string \<Rightarrow> (string \<rightharpoonup> FieldResult)" where
  "run_agents parse native_text ocr_text =
     (let results = Map.empty;
          results = fold (\<lambda>(key, func) results.
                        results(key \<mapsto> scalar_entry (func native_text) (on_ocr func ocr_text None)))
                      (agents parse) results;
          results = results(''line_items'' \<mapsto>
                        lines_entry (agent_line_items native_text) (on_ocr agent_line_items ocr_text (Some [])));
          results = fold (\<lambda>(tax_label, key) results.
                        results(key \<mapsto> picked_entry (agent_tax native_text tax_label)
                                         (on_ocr (\<lambda>t. agent_tax t tax_label) ocr_text None)))
                      [(''HST'', ''hst_amount''), (''PST'', ''pst_amount''), (''GST'', ''gst_amount'')] results;
          results = fold (\<lambda>(label, key) results.
                        results(key \<mapsto> picked_entry (agent_amount native_text label)
                                         (on_ocr (\<lambda>t. agent_amount t label) ocr_text None)))
                      [(''Subtotal'', ''amount_before_hst''), (''Total'', ''amount_total'')] results
      in results)"

section \<open>Duplicate detection\<close>

definition normalize_text :: "string \<Rightarrow> string" where
  "normalize_text text = join '' '' (split_ws (lower text))"

text \<open>\<open>meta.get(key) or ""\<close> on a \<open>Dict[str, Optional[str]]\<close>\<close>

definition meta_get :: "(string \<rightharpoonup> string option) \<Rightarrow> string \<Rightarrow> string" where
  "meta_get m key = (case m key of None \<Rightarrow> '''' | Some v \<Rightarrow> or_str v '''')"

text \<open>\<open>hashlib\<close> is not part of the repository: \<open>sha256\<close> stands for
  \<open>hashlib.sha256(s.encode("utf-8")).hexdigest()\<close>.\<close>

definition compute_fingerprints ::
  "(string \<Rightarrow> string) \<Rightarrow> string \<Rightarrow> (string \<rightharpoonup> string option) \<Rightarrow> string option \<times> string option" where
  "compute_fingerprints sha256 text m =
     (let normalized = normalize_text text;
          fp_a = (if length normalized > 200 then Some (sha256 normalized) else None);
          vendor = lower (strip (meta_get m ''vendor''));
          invoice = lower (strip (meta_get m ''invoice_number''));
          total = lower (strip (meta_get m ''amount_total''));
          inv_date = lower (strip (meta_get m ''invoice_date''));
          concat_str = join ''|'' (filter (\<lambda>v. v \<noteq> []) [vendor, invoice, total, inv_date]);
          fp_b = (if concat_str \<noteq> [] then Some (sha256 concat_str) else None)
      in (fp_a, fp_b))"

text \<open>
  The table \<open>cheque_requests\<close> of the store, as far as the locator reads it, and the
  statements it executes: the SQL text with its bound parameters.  \<open>find_duplicates\<close>
  returns the ids it reports together with the statements it has issued.
\<close>

record cheque_request =
  request_id :: int
  fingerprint_a :: "string option"
  fingerprint_b :: "string option"

type_synonym statement = "string \<times> string list"

definition truthy :: "string option \<Rightarrow> bool" where
  "truthy v = (case v of None \<Rightarrow> False | Some s \<Rightarrow> s \<noteq> [])"

text \<open>The rows that \<open>SELECT id FROM cheque_requests WHERE ...\<close> selects: a clause
  \<open>column = ?\<close> holds for a row whose column is not NULL and equals the parameter.\<close>

definition clause_holds :: "cheque_request \<Rightarrow> string \<times> string \<Rightarrow> bool" where
  "clause_holds r cp = (case cp of (clause, param) \<Rightarrow>
     (if clause = ''fingerprint_a = ?'' then fingerprint_a r = Some param
      else if clause = ''fingerprint_b = ?'' then fingerprint_b r = Some param
      else False))"

definition select_ids :: "cheque_request list \<Rightarrow> string list \<Rightarrow> string list \<Rightarrow> int list" where
  "select_ids table clauses params =
     map request_id (filter (\<lambda>r. list_ex (clause_holds r) (zip clauses params)) table)"

definition find_duplicates ::
  "cheque_request list \<Rightarrow> string option \<Rightarrow> string option \<Rightarrow> int list \<times> statement list" where
  "find_duplicates table fp_a fp_b =
     (let clauses = []; params = [];
          clauses = (if truthy fp_a then clauses @ [''fingerprint_a = ?''] else clauses);
          params = (if truthy fp_a then params @ [or_str fp_a ''''] else params);
          clauses = (if truthy fp_b then clauses @ [''fingerprint_b = ?''] else clauses);
          params = (if truthy fp_b then params @ [or_str fp_b ''''] else params)
      in if clauses = [] then ([], [])
         else (let where_str = join '' OR '' clauses in
               (select_ids table clauses params,
                [(''SELECT id FROM cheque_requests WHERE '' @ where_str, params)])))"

text \<open>
  The normalisation in the words of the specification: lowercase the text, collapse each
  run of whitespace to a single space, trim.
\<close>

definition lstrip :: "string \<Rightarrow> string" where
  "lstrip s = dropWhile is_space s"

definition rstrip :: "string \<Rightarrow> string" where
  "rstrip s = rev (dropWhile is_space (rev s))"

function collapse_ws :: "string \<Rightarrow> string" where
  "collapse_ws [] = []"
| "collapse_ws (c # cs) =
     (if is_space c then CHR '' '' # collapse_ws (dropWhile is_space cs) else c # collapse_ws cs)"
  by pat_completeness auto
termination
  by (relation "measure length") (auto simp: length_dropWhile_le less_Suc_eq_le)

definition normalize_spec :: "string \<Rightarrow> string" where
  "normalize_spec t = strip (collapse_ws (lower t))"

text \<open>
  The metadata values in the words of the specification: each of the four values
  lowercased and trimmed, the non-empty ones kept, in the order vendor, invoice number,
  total amount, invoice date.
\<close>

definition metadata_values :: "(string \<rightharpoonup> string option) \<Rightarrow> string list" where
  "metadata_values m = filter (\<lambda>v. v \<noteq> [])
     (map (\<lambda>key. strip (lower (meta_get m key)))
        [''vendor'', ''invoice_number'', ''amount_total'', ''invoice_date''])"

text \<open>The scenario text of the specification, and what an entry of the result says: its
  string value, its confidence and the source picked.\<close>

definition scenario_text :: string where
  "scenario_text = ''Vendor: Acme Corp'' @ [CHR 0x0A] @ ''Invoice #12345'' @ [CHR 0x0A] @
     ''Subtotal: 500.00'' @ [CHR 0x0A] @ ''HST 65.00'' @ [CHR 0x0A] @ ''Total: 565.00''"

definition entry_summary :: "FieldResult option \<Rightarrow> (string \<times> real \<times> string) option" where
  "entry_summary e = (case e of None \<Rightarrow> None | Some r \<Rightarrow>
     (case fr_value r of Some (Str v) \<Rightarrow> Some (v, fr_confidence r, picked (fr_meta r)) | _ \<Rightarrow> None))"

text \<open>The character before the position reached after reading \<open>u\<close> from a position
  whose previous character is \<open>p\<close>.\<close>

definition prev_after :: "char option \<Rightarrow> string \<Rightarrow> char option" where
  "prev_after p u = (if u = [] then p else Some (last u))"

text \<open>
  The line-item parser in the words of the specification: the money-shaped tokens of a
  line, its quantity token (the first match of the quantity pattern), the lines that
  qualify as rows, and the non-blank lines of a text.
\<close>

definition money_tokens :: "string \<Rightarrow> string list" where
  "money_tokens line = findall1 False MONEY_PAT line"

definition qty_token :: "string \<Rightarrow> string option" where
  "qty_token line = map_option matched (re_search False qty_re line)"

definition qualifies :: "string \<Rightarrow> bool" where
  "qualifies line = (money_tokens line \<noteq> [] \<and> qty_token line \<noteq> None)"

definition nonblank_lines :: "string \<Rightarrow> string list" where
  "nonblank_lines t = filter (\<lambda>l. strip l \<noteq> []) (splitlines t)"

text \<open>
  The matches of the money pattern in a line, as \<open>findall\<close> scans them, and what it
  means for one of them to be delimited: the character just before it, or the character
  just after it, is not a word character (or there is none).
\<close>

definition money_matches :: "string \<Rightarrow> match list" where
  "money_matches line = find_from False MONEY_PAT None line"

definition delimited :: "match \<Rightarrow> bool" where
  "delimited m = (\<not> word_opt (before m) \<or> \<not> word_opt (next_chr (after m)))"

text \<open>
  The token that the fallback of the invoice-number agent finds, read off its pattern
  as the code has it: the first occurrence of the prefix \<open>INV\<close> in upper case followed
  by at least one word character or hyphen, taken up to the last such character.
\<close>

definition wordish :: "char \<Rightarrow> bool" where
  "wordish c = (is_word c \<or> c = CHR ''-'')"

definition inv_start :: "string \<Rightarrow> bool" where
  "inv_start s = (startswith ''INV'' s \<and> (case drop 3 s of [] \<Rightarrow> False | c # _ \<Rightarrow> wordish c))"

fun first_inv_token :: "string \<Rightarrow> string option" where
  "first_inv_token [] = None"
| "first_inv_token (c # cs) =
     (if inv_start (c # cs) then Some (''INV'' @ takeWhile wordish (drop 3 (c # cs)))
      else first_inv_token cs)"

text \<open>
  Letter case.  A pattern is caseless under a flag when each of its literals is
  matched with \<open>re.IGNORECASE\<close> or is a character without case; lowering a matcher
  state or a match lowers its characters and texts.
\<close>

definition uncased :: "char \<Rightarrow> bool" where
  "uncased c = (let n = ord c in
     \<not> (65 \<le> n \<and> n \<le> 90) \<and> \<not> (97 \<le> n \<and> n \<le> 122) \<and>
     \<not> (192 \<le> n \<and> n \<le> 222 \<and> n \<noteq> 215) \<and> \<not> (224 \<le> n \<and> n \<le> 254 \<and> n \<noteq> 247))"

fun atom_ci :: "bool \<Rightarrow> catom \<Rightarrow> bool" where
  "atom_ci ic (Lit c) = (ic \<or> uncased c)"
| "atom_ci ic a = True"

fun caseless :: "bool \<Rightarrow> re \<Rightarrow> bool" where
  "caseless ic Eps = True"
| "caseless ic Any = True"
| "caseless ic (Chr a) = atom_ci ic a"
| "caseless ic (Cls as) = list_all (atom_ci ic) as"
| "caseless ic (Seq a b) = (caseless ic a \<and> caseless ic b)"
| "caseless ic (Alt a b) = (caseless ic a \<and> caseless ic b)"
| "caseless ic (Star r) = caseless ic r"
| "caseless ic (Grp n r) = caseless ic r"
| "caseless ic WordB = True"
| "caseless ic (NotBehind a) = atom_ci False a"
| "caseless ic (NotAhead a) = atom_ci False a"

definition lower_state :: "mstate \<Rightarrow> mstate" where
  "lower_state st = (case st of (p, s, g) \<Rightarrow> (map_option lower_chr p, lower s, map_option lower \<circ> g))"

definition lower_match :: "match \<Rightarrow> match" where
  "lower_match m = \<lparr>skipped = lower (skipped m), before = map_option lower_chr (before m),
     matched = lower (matched m), groups_of = map_option lower \<circ> groups_of m,
     after_prev = map_option lower_chr (after_prev m), after = lower (after m)\<rparr>"

text \<open>A confidence within the unit interval.\<close>

definition conf_in_unit :: "'v AgentResult \<Rightarrow> bool" where
  "conf_in_unit r = (0 \<le> confidence r \<and> confidence r \<le> 1)"

section \<open>Properties\<close>

text \<open>
  C1.  Whatever the two candidate values are, the selector returns the native value, the
  native confidence and the label "native" when the native confidence is at least the
  OCR confidence (a tie included), and the OCR value, the OCR confidence and the label
  "ocr" when the OCR confidence is strictly higher; so the label is "ocr" exactly in
  the second case.  The tie of 0.0 against 0.0 between two empty values gives the empty
  native value, and an entry without value whose picked source is "native".
\<close>

theorem pick_text_rule:
  "pick_text nv ov c1 c2 = (if c2 > c1 then (ov, c2, ''ocr'') else (nv, c1, ''native''))
   \<and> (snd (snd (pick_text nv ov c1 c2)) = ''ocr'' \<longleftrightarrow> c2 > c1)
   \<and> pick_text [] [] 0.0 0.0 = ([], 0.0, ''native'')
   \<and> fr_value (scalar_entry (skip_result None) (skip_result None)) = None
   \<and> picked (fr_meta (scalar_entry (skip_result None) (skip_result None))) = ''native''"
  by (simp add: pick_text_def scalar_entry_def skip_result_def or_str_def or_none_def)

subsection \<open>Confidences\<close>

lemma max_conf_mem: "max_conf b cs \<in> set (b # cs)"
  by (induction cs arbitrary: b) (auto split: if_splits)

lemma address_candidates_conf: "c \<in> set (address_candidates ls) \<Longrightarrow> confidence c = 0.75"
  by (induction ls) (auto split: if_splits)

lemma agent_address_conf: "confidence (agent_address t) \<in> {0, 0.4, 0.75}"
proof (cases "address_candidates (stripped_lines t)")
  case Nil
  then show ?thesis by (simp add: agent_address_def Let_def)
next
  case (Cons c cs)
  have "max_conf c cs \<in> set (address_candidates (stripped_lines t))"
    using max_conf_mem [of c cs] Cons by simp
  then have "confidence (max_conf c cs) = 0.75"
    by (rule address_candidates_conf)
  then show ?thesis using Cons by (simp add: agent_address_def Let_def)
qed

text \<open>
  C7.  Whatever the text (and whatever the date parser answers, and whatever label the
  tax and amount agents are given), the result of each of the nine field agents has a
  confidence between 0.0 and 1.0.
\<close>

theorem agent_confidence_in_unit_interval:
  "conf_in_unit (agent_vendor t) \<and> conf_in_unit (agent_hst t) \<and>
   conf_in_unit (agent_address t) \<and> conf_in_unit (agent_description t) \<and>
   conf_in_unit (agent_invoice_number t) \<and> conf_in_unit (agent_invoice_date parse t) \<and>
   conf_in_unit (agent_line_items t) \<and> conf_in_unit (agent_tax t tax_label) \<and>
   conf_in_unit (agent_amount t label)"
proof -
  have 1: "conf_in_unit (agent_vendor t)"
    by (simp add: conf_in_unit_def agent_vendor_def split: option.splits list.splits)
  have 2: "conf_in_unit (agent_hst t)"
    by (simp add: conf_in_unit_def agent_hst_def split: option.splits)
  have 3: "conf_in_unit (agent_address t)"
    using agent_address_conf [of t] by (auto simp: conf_in_unit_def)
  have 4: "conf_in_unit (agent_description t)"
    by (simp add: conf_in_unit_def agent_description_def Let_def split: list.splits)
  have 5: "conf_in_unit (agent_invoice_number t)"
    by (simp add: conf_in_unit_def agent_invoice_number_def split: option.splits list.splits)
  have 6: "conf_in_unit (agent_invoice_date parse t)"
    by (simp add: conf_in_unit_def agent_invoice_date_def Let_def split: option.splits)
  have 7: "conf_in_unit (agent_line_items t)"
    by (simp add: conf_in_unit_def agent_line_items_def Let_def)
  have 8: "conf_in_unit (agent_tax t tax_label)"
    by (simp add: conf_in_unit_def agent_tax_def split: option.splits)
  have 9: "conf_in_unit (agent_amount t label)"
    by (simp add: conf_in_unit_def agent_amount_def Let_def split: option.splits)
  from 1 2 3 4 5 6 7 8 9 show ?thesis by blast
qed

text \<open>
  C9.  The confidence that the selector returns is the maximum of the two confidences,
  and so is Python's \<open>max\<close> of them.  Hence the entry of a tax or amount agent, which
  stores the selector's confidence, and the entry of a scalar agent, which stores
  \<open>max(native.confidence, ocr.confidence)\<close>, carry the same confidence for the same two
  agent results; the line-item entry stores that maximum too.
\<close>

theorem pick_text_confidence_is_max:
  "fst (snd (pick_text nv ov c1 c2)) = max c1 c2
   \<and> py_max c1 c2 = max c1 c2
   \<and> fr_confidence (picked_entry a b) = fr_confidence (scalar_entry a b)
   \<and> fr_confidence (lines_entry a' b') = max (confidence a') (confidence b')"
  by (simp add: pick_text_def py_max_def picked_entry_def scalar_entry_def lines_entry_def max_def)

subsection \<open>Duplicate locator\<close>

text \<open>
  C8.  With no content fingerprint and no metadata fingerprint, \<open>find_duplicates\<close>
  reports no id and issues no statement to the store, whatever the table holds.
\<close>

theorem find_duplicates_both_null:
  "find_duplicates table None None = ([], [])"
  by (simp add: find_duplicates_def truthy_def)

subsection \<open>Fingerprints\<close>

lemma strip_eq: "strip s = rstrip (lstrip s)"
  by (simp add: strip_def rstrip_def lstrip_def)

lemma is_space_blank [simp]: "is_space CHR '' ''"
  by (simp add: is_space_def ord_def)

lemma collapse_ws_head: "s \<noteq> [] \<Longrightarrow> \<not> is_space (hd s) \<Longrightarrow> collapse_ws s = hd s # collapse_ws (tl s)"
  by (cases s) auto

lemma lstrip_nonspace: "lstrip s = [] \<or> \<not> is_space (hd (lstrip s))"
  unfolding lstrip_def by (metis hd_dropWhile)

lemma lstrip_collapse_lstrip: "lstrip (collapse_ws (lstrip s)) = collapse_ws (lstrip s)"
proof (cases "lstrip s")
  case Nil
  show ?thesis unfolding Nil by (simp add: lstrip_def)
next
  case (Cons a as)
  with lstrip_nonspace [of s] have "\<not> is_space a" by simp
  then show ?thesis unfolding Cons by (simp add: lstrip_def)
qed

lemma lstrip_collapse: "lstrip (collapse_ws s) = collapse_ws (lstrip s)"
proof (cases s)
  case Nil
  then show ?thesis by (simp add: lstrip_def)
next
  case (Cons c cs)
  show ?thesis
  proof (cases "is_space c")
    case True
    then have "lstrip (collapse_ws s) = lstrip (collapse_ws (lstrip cs))"
      using Cons by (simp add: lstrip_def)
    also have "\<dots> = collapse_ws (lstrip cs)" by (rule lstrip_collapse_lstrip)
    also have "lstrip cs = lstrip s" using Cons True by (simp add: lstrip_def)
    finally show ?thesis .
  next
    case False
    then show ?thesis using Cons by (simp add: lstrip_def)
  qed
qed

lemma rstrip_append_nonspace:
  "b \<noteq> [] \<Longrightarrow> \<not> is_space (last b) \<Longrightarrow> rstrip (a @ b) = a @ b"
  by (cases b rule: rev_cases) (auto simp: rstrip_def)

lemma rstrip_append:
  "rstrip (a @ b) = (if rstrip b = [] then rstrip a else a @ rstrip b)"
  by (simp add: rstrip_def dropWhile_append dropWhile_eq_Nil_conv)

lemma rstrip_nospace: "\<forall>c\<in>set w. \<not> is_space c \<Longrightarrow> rstrip w = w"
  by (cases w rule: rev_cases) (auto simp: rstrip_def)

lemma rstrip_head: "\<not> is_space c \<Longrightarrow> rstrip (c # x) = c # rstrip x"
  using rstrip_append [of "[c]" x] by (auto simp: rstrip_def)

lemma join_Cons: "join sep (w # ws) = (if ws = [] then w else w @ sep @ join sep ws)"
  by (cases ws) auto

lemma split_acc_Nil_iff: "split_acc w s = [] \<longleftrightarrow> w = [] \<and> (\<forall>c\<in>set s. is_space c)"
  by (induction w s rule: split_acc.induct) auto

lemma collapse_eq_Nil [simp]: "collapse_ws s = [] \<longleftrightarrow> s = []"
  by (cases s) auto

lemma lstrip_Nil_iff: "lstrip s = [] \<longleftrightarrow> (\<forall>c\<in>set s. is_space c)"
  by (simp add: lstrip_def dropWhile_eq_Nil_conv)

lemma rstrip_collapse_lstrip_Nil: "rstrip (collapse_ws (lstrip s)) = [] \<longleftrightarrow> (\<forall>c\<in>set s. is_space c)"
proof (cases "lstrip s")
  case Nil
  then show ?thesis using lstrip_Nil_iff [of s] by (simp add: rstrip_def)
next
  case (Cons a as)
  with lstrip_nonspace [of s] have "\<not> is_space a" by simp
  then have "rstrip (collapse_ws (lstrip s)) \<noteq> []" using Cons by (simp add: rstrip_head)
  moreover have "\<not> (\<forall>c\<in>set s. is_space c)" using Cons lstrip_Nil_iff [of s] by simp
  ultimately show ?thesis by simp
qed

lemma join_split_acc:
  "\<forall>c\<in>set w. \<not> is_space c \<Longrightarrow>
   join '' '' (split_acc w s) =
     (if w = [] then rstrip (collapse_ws (lstrip s)) else rstrip (w @ collapse_ws s))"
proof (induction w s rule: split_acc.induct)
  case (1 w)
  then have "rstrip w = w" by (rule rstrip_nospace)
  then show ?case by (simp add: lstrip_def) (simp add: rstrip_def)
next
  case (2 w c cs)
  show ?case
  proof (cases "is_space c")
    case False
    with 2 have "join '' '' (split_acc (w @ [c]) cs) = rstrip ((w @ [c]) @ collapse_ws cs)"
      by simp
    with False show ?thesis by (simp add: lstrip_def)
  next
    case True
    have ih: "join '' '' (split_acc [] cs) = rstrip (collapse_ws (lstrip cs))"
      using 2 True by (cases "w = []") simp_all
    show ?thesis
    proof (cases "w = []")
      case True
      with \<open>is_space c\<close> ih show ?thesis by (simp add: lstrip_def)
    next
      case wne: False
      let ?X = "collapse_ws (lstrip cs)"
      have nosp: "rstrip w = w" using "2.prems" by (rule rstrip_nospace)
      show ?thesis
      proof (cases "\<forall>c\<in>set cs. is_space c")
        case True
        then have sa: "split_acc [] cs = []" by (simp add: split_acc_Nil_iff)
        have dw: "dropWhile is_space cs = []" using True by simp
        have rw: "rstrip (w @ '' '') = w"
          using rstrip_append [of w "'' ''"] nosp by (simp add: rstrip_def)
        have "join '' '' (split_acc w (c # cs)) = w" using \<open>is_space c\<close> wne sa by simp
        moreover have "rstrip (w @ collapse_ws (c # cs)) = w" using \<open>is_space c\<close> rw by (simp add: dw)
        ultimately show ?thesis using wne by simp
      next
        case False
        then have ne: "split_acc [] cs \<noteq> []" by (simp add: split_acc_Nil_iff)
        have rne: "rstrip ?X \<noteq> []" using False rstrip_collapse_lstrip_Nil [of cs] by simp
        have "rstrip (CHR '' '' # ?X) = CHR '' '' # rstrip ?X"
          using rstrip_append [of "'' ''" ?X] rne by simp
        then have "rstrip (w @ CHR '' '' # ?X) = w @ CHR '' '' # rstrip ?X"
          using rstrip_append [of w "CHR '' '' # ?X"] by simp
        then show ?thesis using \<open>is_space c\<close> wne ne ih by (simp add: join_Cons lstrip_def)
      qed
    qed
  qed
qed

lemma normalize_text_spec: "normalize_text t = normalize_spec t"
proof -
  have "normalize_text t = rstrip (collapse_ws (lstrip (lower t)))"
    using join_split_acc [of "[]" "lower t"] by (simp add: normalize_text_def split_ws_def)
  also have "\<dots> = rstrip (lstrip (collapse_ws (lower t)))" by (simp add: lstrip_collapse)
  finally show ?thesis by (simp add: normalize_spec_def strip_eq)
qed

text \<open>
  C3.  The normalized text is the lowercased text with its whitespace runs collapsed to
  single spaces and trimmed.  The content fingerprint is the SHA-256 hex digest of the
  normalized text when that text is longer than 200 characters, and null otherwise: a
  normalized length of exactly 200 gives null, a length of 201 a fingerprint.
\<close>

theorem content_fingerprint_threshold:
  "normalize_text t = normalize_spec t
   \<and> fst (compute_fingerprints sha256 t m) =
       (if length (normalize_spec t) > 200 then Some (sha256 (normalize_spec t)) else None)
   \<and> (length (normalize_spec t) = 200 \<longrightarrow> fst (compute_fingerprints sha256 t m) = None)
   \<and> (length (normalize_spec t) = 201 \<longrightarrow> fst (compute_fingerprints sha256 t m) \<noteq> None)"
  by (simp add: compute_fingerprints_def Let_def normalize_text_spec)

theorem content_fingerprint_threshold_witness:
  "length (normalize_spec (replicate 200 CHR ''A'')) = 200
   \<and> fst (compute_fingerprints (\<lambda>s. s) (replicate 200 CHR ''A'') Map.empty) = None
   \<and> length (normalize_spec (replicate 100 CHR ''A'' @ '' '' @ replicate 100 CHR ''b'')) = 201
   \<and> fst (compute_fingerprints (\<lambda>s. s) (replicate 100 CHR ''A'' @ '' '' @ replicate 100 CHR ''b'') Map.empty) \<noteq> None"
proof -
  have a: "length (normalize_spec (replicate 200 CHR ''A'')) = 200" by code_simp
  have b: "length (normalize_spec (replicate 100 CHR ''A'' @ '' '' @ replicate 100 CHR ''b'')) = 201" by code_simp
  show ?thesis
    using a b content_fingerprint_threshold [of "replicate 200 CHR ''A''" "\<lambda>s. s" Map.empty]
      content_fingerprint_threshold [of "replicate 100 CHR ''A'' @ '' '' @ replicate 100 CHR ''b''" "\<lambda>s. s" Map.empty]
    by blast
qed


lemma ord_lower_chr: "ord (lower_chr c) = (if (65 \<le> ord c \<and> ord c \<le> 90) \<or> (192 \<le> ord c \<and> ord c \<le> 222 \<and> ord c \<noteq> 215) then ord c + 32 else ord c)"
  by (auto simp: lower_chr_def ord_def Let_def)

lemma is_space_lower_chr [simp]: "is_space (lower_chr c) = is_space c"
  unfolding is_space_def ord_lower_chr by auto

lemma lower_dropWhile: "lower (dropWhile is_space s) = dropWhile is_space (lower s)"
  by (induction s) (auto simp: lower_def)

lemma lower_rev: "lower (rev s) = rev (lower s)"
  by (simp add: lower_def rev_map)

lemma lower_strip: "lower (strip s) = strip (lower s)"
  by (simp add: strip_def lower_rev lower_dropWhile)

lemma join_eq_Nil: "\<forall>v\<in>set vs. v \<noteq> [] \<Longrightarrow> join sep vs = [] \<longleftrightarrow> vs = []"
  by (induction sep vs rule: join.induct) auto

text \<open>
  C4.  The metadata fingerprint is the SHA-256 digest of the four metadata values
  (vendor, invoice number, total amount, invoice date), each lowercased and trimmed,
  the non-empty ones joined in that order with "|"; it is null when there is no
  non-empty value, that is exactly when all four values are empty or whitespace only.
\<close>

theorem metadata_fingerprint_rule:
  "snd (compute_fingerprints sha256 t m) =
     (if metadata_values m = [] then None else Some (sha256 (join ''|'' (metadata_values m))))
   \<and> ((strip (meta_get m ''vendor'') = [] \<and> strip (meta_get m ''invoice_number'') = [] \<and>
        strip (meta_get m ''amount_total'') = [] \<and> strip (meta_get m ''invoice_date'') = [])
       \<longleftrightarrow> snd (compute_fingerprints sha256 t m) = None)"
proof -
  let ?vs = "metadata_values m"
  have ne: "\<forall>v\<in>set ?vs. v \<noteq> []" by (simp add: metadata_values_def)
  have cc: "join ''|'' (filter (\<lambda>v. v \<noteq> []) [lower (strip (meta_get m ''vendor'')),
        lower (strip (meta_get m ''invoice_number'')), lower (strip (meta_get m ''amount_total'')),
        lower (strip (meta_get m ''invoice_date''))]) = join ''|'' ?vs"
    by (simp only: metadata_values_def lower_strip list.map)
  have 1: "snd (compute_fingerprints sha256 t m) =
     (if ?vs = [] then None else Some (sha256 (join ''|'' ?vs)))"
    unfolding compute_fingerprints_def Let_def snd_conv cc
    using join_eq_Nil [OF ne, of "''|''"] by simp
  have low: "\<And>s. lower s = [] \<longleftrightarrow> s = []" by (simp add: lower_def)
  have 2: "?vs = [] \<longleftrightarrow> (strip (meta_get m ''vendor'') = [] \<and> strip (meta_get m ''invoice_number'') = [] \<and>
        strip (meta_get m ''amount_total'') = [] \<and> strip (meta_get m ''invoice_date'') = [])"
    unfolding metadata_values_def lower_strip [symmetric] by (auto simp: low split: if_splits)
  show ?thesis using 1 2 by auto
qed

subsection \<open>The scenario of the specification\<close>

lemma scenario_vendor:
  "agent_vendor scenario_text = \<lparr>ar_value = Some ''Acme Corp'', confidence = 0.9, meta = [(''source'', MStr ''keyword'')]\<rparr>"
  by code_simp

lemma scenario_invoice_number:
  "agent_invoice_number scenario_text = \<lparr>ar_value = Some ''12345'', confidence = 0.9, meta = [(''source'', MStr ''regex'')]\<rparr>"
  by code_simp

lemma scenario_subtotal:
  "agent_amount scenario_text ''Subtotal'' = \<lparr>ar_value = Some ''500.00'', confidence = 0.9, meta = [(''source'', MStr ''regex'')]\<rparr>"
  by code_simp

lemma scenario_total:
  "agent_amount scenario_text ''Total'' = \<lparr>ar_value = Some ''500.00'', confidence = 0.9, meta = [(''source'', MStr ''regex'')]\<rparr>"
  by code_simp

lemma scenario_hst:
  "agent_tax scenario_text ''HST'' = \<lparr>ar_value = Some ''65.00'', confidence = 0.85, meta = [(''source'', MStr ''regex'')]\<rparr>"
  by code_simp

lemmas entry_defs = entry_summary_def run_agents_def agents_def Let_def scalar_entry_def picked_entry_def
  on_ocr_def skip_result_def pick_text_def or_str_def or_none_def py_max_def

text \<open>
  C2.  On the scenario text with empty OCR text the pipeline picks the native source for
  every field and yields vendor "Acme Corp" (0.9), invoice number "12345" (0.9),
  amount before HST "500.00" and HST amount "65.00"; for the total amount it yields
  "500.00", not "565.00": the case-insensitive pattern of the label "Total" first
  matches inside "Subtotal: 500.00".
\<close>

theorem run_agents_scenario:
  "entry_summary (run_agents parse scenario_text [] ''vendor'') = Some (''Acme Corp'', 0.9, ''native'')
   \<and> entry_summary (run_agents parse scenario_text [] ''invoice_number'') = Some (''12345'', 0.9, ''native'')
   \<and> entry_summary (run_agents parse scenario_text [] ''amount_before_hst'') = Some (''500.00'', 0.9, ''native'')
   \<and> entry_summary (run_agents parse scenario_text [] ''hst_amount'') = Some (''65.00'', 0.85, ''native'')
   \<and> entry_summary (run_agents parse scenario_text [] ''amount_total'') = Some (''500.00'', 0.9, ''native'')"
proof -
  have 1: "entry_summary (run_agents parse scenario_text [] ''vendor'') = Some (''Acme Corp'', 0.9, ''native'')"
    by (simp add: entry_defs scenario_vendor)
  have 2: "entry_summary (run_agents parse scenario_text [] ''invoice_number'') = Some (''12345'', 0.9, ''native'')"
    by (simp add: entry_defs scenario_invoice_number)
  have 3: "entry_summary (run_agents parse scenario_text [] ''amount_before_hst'') = Some (''500.00'', 0.9, ''native'')"
    by (simp add: entry_defs scenario_subtotal)
  have 4: "entry_summary (run_agents parse scenario_text [] ''hst_amount'') = Some (''65.00'', 0.85, ''native'')"
    by (simp add: entry_defs scenario_hst)
  have 5: "entry_summary (run_agents parse scenario_text [] ''amount_total'') = Some (''500.00'', 0.9, ''native'')"
    by (simp add: entry_defs scenario_total)
  from 1 2 3 4 5 show ?thesis by blast
qed

subsection \<open>The matcher\<close>

text \<open>The recursive equations are unfolded by hand.\<close>

declare find_from.simps [simp del] sub_from.simps [simp del] str_nat.simps [simp del]
  rmatch.simps(7) [simp del]

lemma star_set:
  "x \<in> set (rmatch ic (Star r) (p, s, g)) \<longleftrightarrow>
     x = (p, s, g) \<or> (\<exists>pm sm gm. (pm, sm, gm) \<in> set (rmatch ic r (p, s, g)) \<and> length sm < length s
        \<and> x \<in> set (rmatch ic (Star r) (pm, sm, gm)))"
  by (subst rmatch.simps(7)) (auto split: if_splits)

lemma prev_after_Nil [simp]: "prev_after p [] = p"
  by (simp add: prev_after_def)

lemma prev_after_append [simp]: "prev_after (prev_after p u) v = prev_after p (u @ v)"
  by (simp add: prev_after_def)

lemma prev_after_single [simp]: "prev_after p [c] = Some c"
  by (simp add: prev_after_def)

lemma prev_after_Cons: "prev_after p (c # u) = prev_after (Some c) u"
  by (simp add: prev_after_def)

lemma suffix_none: "st = (p', s', g') \<Longrightarrow> \<exists>u. fst (snd st) = u @ s' \<and> p' = prev_after (fst st) u"
  by (intro exI [of _ "[]"]) simp

lemma suffix_one: "fst (snd st) = c # s' \<Longrightarrow> \<exists>u. fst (snd st) = u @ s' \<and> Some c = prev_after (fst st) u"
  by (intro exI [of _ "[c]"]) simp

lemma rmatch_suffix_aux:
  "(p', s', g') \<in> set (rmatch ic r st) \<Longrightarrow>
   \<exists>u. fst (snd st) = u @ s' \<and> p' = prev_after (fst st) u"
proof (induction ic r st arbitrary: p' s' g' rule: rmatch.induct)
  case (5 ic a b st)
  from "5.prems" obtain pm sm gm where
    m: "(pm, sm, gm) \<in> set (rmatch ic a st)" and
    f: "(p', s', g') \<in> set (rmatch ic b (pm, sm, gm))"
    by auto
  from "5.IH"(1) [OF m] obtain u where u: "fst (snd st) = u @ sm" "pm = prev_after (fst st) u"
    by auto
  from "5.IH"(2) [OF m f] obtain v where v: "sm = v @ s'" "p' = prev_after pm v"
    by auto
  from u v have "fst (snd st) = (u @ v) @ s' \<and> p' = prev_after (fst st) (u @ v)"
    by simp
  then show ?case by blast
next
  case (7 ic r p s g)
  from "7.prems" consider
    (stop) "(p', s', g') = (p, s, g)" |
    (step) pm sm gm where "(pm, sm, gm) \<in> set (rmatch ic r (p, s, g))" "length sm < length s"
      "(p', s', g') \<in> set (rmatch ic (Star r) (pm, sm, gm))"
    using star_set [of "(p', s', g')" ic r p s g] by blast
  then show ?case
  proof cases
    case stop
    then have "fst (snd (p, s, g)) = [] @ s' \<and> p' = prev_after (fst (p, s, g)) []" by simp
    then show ?thesis by blast
  next
    case step
    from "7.IH"(1) [OF step(1)] obtain u where u: "s = u @ sm" "pm = prev_after p u"
      by auto
    from "7.IH"(2) [OF step(1) refl refl step(2) step(3)]
    obtain v where v: "sm = v @ s'" "p' = prev_after pm v"
      by auto
    from u v have "fst (snd (p, s, g)) = (u @ v) @ s' \<and> p' = prev_after (fst (p, s, g)) (u @ v)"
      by simp
    then show ?thesis by blast
  qed
next
  case (1 ic st)
  then show ?case by (auto intro: suffix_none)
next
  case (2 ic p s g)
  then show ?case by (auto split: list.splits if_splits intro: suffix_one)
next
  case (3 ic a p s g)
  then show ?case by (auto split: list.splits if_splits intro: suffix_one)
next
  case (4 ic as p s g)
  then show ?case by (auto split: list.splits if_splits intro: suffix_one)
next
  case (6 ic a b st)
  then show ?case by auto
next
  case (8 ic n r p s g)
  from "8.prems" obtain gm where "(p', s', gm) \<in> set (rmatch ic r (p, s, g))" by auto
  from "8.IH" [OF this] show ?case .
next
  case (9 ic p s g)
  then show ?case by (auto split: if_splits intro: suffix_none)
next
  case (10 ic a p s g)
  then show ?case by (auto split: if_splits intro: suffix_none)
next
  case (11 ic a p s g)
  then show ?case by (auto split: if_splits intro: suffix_none)
qed

lemma rmatch_suffix:
  "(p', s', g') \<in> set (rmatch ic r (p, s, g)) \<Longrightarrow> \<exists>u. s = u @ s' \<and> p' = prev_after p u"
  using rmatch_suffix_aux [of p' s' g' ic r "(p, s, g)"] by simp

lemma star_stop: "st \<in> set (rmatch ic (Star r) st)"
proof (cases st)
  case (fields p s g)
  show ?thesis unfolding fields using star_set [of "(p, s, g)" ic r p s g] by blast
qed

lemma star_step:
  "(pm, sm, gm) \<in> set (rmatch ic r (p, s, g)) \<Longrightarrow> length sm < length s \<Longrightarrow>
   x \<in> set (rmatch ic (Star r) (pm, sm, gm)) \<Longrightarrow> x \<in> set (rmatch ic (Star r) (p, s, g))"
  using star_set [of x ic r p s g] by blast

lemma seq_mem:
  "m \<in> set (rmatch ic a st) \<Longrightarrow> x \<in> set (rmatch ic b m) \<Longrightarrow> x \<in> set (rmatch ic (Seq a b) st)"
  by auto

lemma search_from_complete:
  "rmatch ic r (prev_after p pre, rest, Map.empty) \<noteq> [] \<Longrightarrow>
   search_from ic r skip p (pre @ rest) \<noteq> None"
proof (induction pre arbitrary: skip p)
  case Nil
  then show ?case by (cases rest) (auto split: list.splits)
next
  case (Cons a pre)
  from Cons.prems have "rmatch ic r (prev_after (Some a) pre, rest, Map.empty) \<noteq> []"
    by (simp add: prev_after_Cons)
  from Cons.IH [OF this] show ?case by (auto split: list.splits)
qed

lemma search_shapeI:
  "s = pre @ rest \<Longrightarrow> rmatch ic r (prev_after p pre, rest, Map.empty) = st # sts \<Longrightarrow>
   m = mk_match (skip @ pre) (prev_after p pre) rest st \<Longrightarrow>
   \<exists>pre rest st tl. s = pre @ rest \<and> rmatch ic r (prev_after p pre, rest, Map.empty) = st # tl
     \<and> m = mk_match (skip @ pre) (prev_after p pre) rest st"
  by (intro exI conjI)

lemma search_from_Some:
  "search_from ic r skip p s = Some m \<Longrightarrow>
   \<exists>pre rest st tl. s = pre @ rest \<and> rmatch ic r (prev_after p pre, rest, Map.empty) = st # tl
     \<and> m = mk_match (skip @ pre) (prev_after p pre) rest st"
proof (induction s arbitrary: skip p)
  case Nil
  then obtain st tl where h: "rmatch ic r (p, [], Map.empty) = st # tl" "m = mk_match skip p [] st"
    by (cases "rmatch ic r (p, [], Map.empty)") simp_all
  show ?case
    by (rule search_shapeI [of _ "[]" "[]" _ _ _ st tl]) (simp_all add: h)
next
  case (Cons c cs)
  show ?case
  proof (cases "rmatch ic r (p, c # cs, Map.empty)")
    case Nil
    with Cons.prems have "search_from ic r (skip @ [c]) (Some c) cs = Some m" by simp
    from Cons.IH [OF this] obtain pre rest st tl where
      h: "cs = pre @ rest" "rmatch ic r (prev_after (Some c) pre, rest, Map.empty) = st # tl"
         "m = mk_match ((skip @ [c]) @ pre) (prev_after (Some c) pre) rest st"
      by blast
    show ?thesis
      by (rule search_shapeI [of _ "c # pre" rest _ _ _ st tl]) (simp_all add: h prev_after_Cons)
  next
    case (Cons st tl)
    with Cons.prems have m: "m = mk_match skip p (c # cs) st" by simp
    show ?thesis
      by (rule search_shapeI [of _ "[]" "c # cs" _ _ _ st tl]) (simp_all add: m Cons)
  qed
qed

text \<open>What a found match is: a first result of the matcher at some position.\<close>

lemma mk_match_fields:
  "(p', s', g') \<in> set (rmatch ic r (p, s, g)) \<Longrightarrow>
   matched (mk_match skip p s (p', s', g')) @ s' = s"
proof -
  assume "(p', s', g') \<in> set (rmatch ic r (p, s, g))"
  then obtain u where "s = u @ s'" using rmatch_suffix by blast
  then show ?thesis by (simp add: mk_match_def)
qed

lemma search_from_shape:
  assumes "search_from ic r skip p s = Some m"
  shows "\<exists>pre. s = pre @ matched m @ after m \<and> before m = prev_after p pre
     \<and> skipped m = skip @ pre
     \<and> (after_prev m, after m, groups_of m) \<in> set (rmatch ic r (before m, matched m @ after m, Map.empty))"
proof -
  from search_from_Some [OF assms] obtain pre rest st tl where
    h: "s = pre @ rest" "rmatch ic r (prev_after p pre, rest, Map.empty) = st # tl"
       "m = mk_match (skip @ pre) (prev_after p pre) rest st"
    by blast
  obtain p' s' g' where st: "st = (p', s', g')" by (cases st)
  have mem: "(p', s', g') \<in> set (rmatch ic r (prev_after p pre, rest, Map.empty))"
    using h(2) st by simp
  from mk_match_fields [OF mem] have ms: "matched m @ s' = rest"
    using h(3) st by simp
  have fl: "after m = s'" "after_prev m = p'" "groups_of m = g'" "before m = prev_after p pre"
    "skipped m = skip @ pre"
    using h(3) st by (simp_all add: mk_match_def)
  show ?thesis
    using h(1) ms fl mem by auto
qed

lemma find_from_mem:
  "m \<in> set (find_from ic r p s) \<Longrightarrow>
   \<exists>pre. s = pre @ matched m @ after m \<and> before m = prev_after p pre
     \<and> (after_prev m, after m, groups_of m) \<in> set (rmatch ic r (before m, matched m @ after m, Map.empty))"
proof (induction ic r p s rule: find_from.induct)
  case (1 ic r p s)
  show ?case
  proof (cases "search_from ic r [] p s")
    case None
    with "1.prems" show ?thesis by (simp add: find_from.simps)
  next
    case (Some m0)
    from search_from_shape [OF Some] obtain pre0 where
      h0: "s = pre0 @ matched m0 @ after m0" "before m0 = prev_after p pre0"
        "(after_prev m0, after m0, groups_of m0) \<in> set (rmatch ic r (before m0, matched m0 @ after m0, Map.empty))"
      by blast
    have ap: "after_prev m0 = prev_after p (pre0 @ matched m0)"
      using rmatch_suffix [OF h0(3)] h0(2) by auto
    from "1.prems" Some consider (hd) "m = m0" |
      (tl) "length (after m0) < length s" "m \<in> set (find_from ic r (after_prev m0) (after m0))"
      by (auto simp: find_from.simps [of ic r p s] split: if_splits)
    then show ?thesis
    proof cases
      case hd
      with h0 show ?thesis by blast
    next
      case tl
      from "1.IH" [OF Some tl(1) tl(2)] obtain pre where
        h: "after m0 = pre @ matched m @ after m" "before m = prev_after (after_prev m0) pre"
          "(after_prev m, after m, groups_of m) \<in> set (rmatch ic r (before m, matched m @ after m, Map.empty))"
        by blast
      have "s = (pre0 @ matched m0 @ pre) @ matched m @ after m"
        using h0(1) h(1) by simp
      moreover have "before m = prev_after p (pre0 @ matched m0 @ pre)"
        using h(2) ap by (simp add: prev_after_append [symmetric] del: prev_after_append)
      ultimately show ?thesis using h(3) by blast
    qed
  qed
qed

subsection \<open>Line items\<close>

lemma grp_between:
  "(p', s', g') \<in> set (rmatch ic (Seq WordB (Seq (Grp n X) (Seq WordB Eps))) (p, s, g)) \<Longrightarrow>
   g' n = Some (take (length s - length s') s)"
  by (auto split: if_splits)

lemma qty_re_shape:
  "qty_re = Seq WordB (Seq (Grp 1 (seqs [Plus Dgt, Opt (seqs [Ch CHR ''.'', Plus Dgt])])) (Seq WordB Eps))"
  by (simp add: qty_re_def seqs_def)

lemma qty_group:
  assumes "re_search False qty_re line = Some m"
  shows "group m 1 = Some (matched m)"
proof -
  from assms have "search_from False qty_re [] None line = Some m"
    by (simp add: re_search_def)
  from search_from_shape [OF this]
  have "(after_prev m, after m, groups_of m)
      \<in> set (rmatch False qty_re (before m, matched m @ after m, Map.empty))"
    by blast
  then have "groups_of m 1 = Some (take (length (matched m @ after m) - length (after m)) (matched m @ after m))"
    unfolding qty_re_shape by (rule grp_between)
  then show ?thesis by (simp add: group_def)
qed

lemma or_str_Some: "or_str (Some x) '''' = x"
  by (simp add: or_str_def)

lemma line_row_eq:
  "line_row line =
     (if qualifies line
      then Some \<lparr>qty = the (qty_token line), description = strip (take 80 line), coding = '''',
                 unit_price = hd (money_tokens line),
                 tax = (if length (money_tokens line) > 1 then money_tokens line ! 1 else ''''),
                 line_total = last (money_tokens line)\<rparr>
      else None)"
proof (cases "re_search False qty_re line")
  case None
  then show ?thesis by (simp add: line_row_def qualifies_def qty_token_def Let_def)
next
  case (Some m)
  from qty_group [OF Some] have g: "or_str (group m 1) '''' = matched m"
    by (simp add: or_str_Some)
  show ?thesis
  proof (cases "money_tokens line")
    case Nil
    then show ?thesis using Some
      by (simp add: line_row_def qualifies_def qty_token_def Let_def money_tokens_def)
  next
    case (Cons a as)
    then have "findall1 False MONEY_PAT line = a # as" by (simp add: money_tokens_def)
    then show ?thesis using Some g Cons
      by (simp add: line_row_def qualifies_def qty_token_def Let_def money_tokens_def)
  qed
qed

lemma line_loop_eq: "line_loop rows ls = rows @ List.map_filter line_row ls"
  by (induction ls arbitrary: rows) (auto simp: List.map_filter_simps split: option.splits)

lemma map_filter_Nil_iff: "List.map_filter f xs = [] \<longleftrightarrow> \<not> list_ex (\<lambda>x. f x \<noteq> None) xs"
  by (induction xs) (auto simp: List.map_filter_simps split: option.splits)

lemma line_row_Some_iff: "(\<exists>r. line_row line = Some r) \<longleftrightarrow> qualifies line"
  by (simp add: line_row_eq)

text \<open>
  C5, as amended.  A line that qualifies as a row (it has a money-shaped token and a
  quantity token) gives the row whose quantity is the quantity token, whose description
  is the line truncated to 80 characters and then stripped of leading and trailing
  whitespace, whose coding is empty, whose unit price is the first money token, whose
  tax is the second money token if there is one and empty otherwise, and whose line
  total is the last money token; a line that does not qualify gives no row.  The agent
  returns the rows of the non-blank lines in order, with confidence 0.6 when there is a
  row and 0.1 with the empty row sequence otherwise.  The line
  "2 Widgets 10.00 1.30 11.30" gives qty "2", unit price "10.00", tax "1.30" and line
  total "11.30".
\<close>

theorem line_item_rows:
  "(qualifies line \<longrightarrow>
      line_row line = Some \<lparr>qty = the (qty_token line), description = strip (take 80 line), coding = '''',
                 unit_price = hd (money_tokens line),
                 tax = (if length (money_tokens line) > 1 then money_tokens line ! 1 else ''''),
                 line_total = last (money_tokens line)\<rparr>)
   \<and> (\<not> qualifies line \<longrightarrow> line_row line = None)
   \<and> ar_value (agent_line_items t) = Some (List.map_filter line_row (nonblank_lines t))
   \<and> confidence (agent_line_items t) = (if list_ex qualifies (nonblank_lines t) then 0.6 else 0.1)
   \<and> (\<not> list_ex qualifies (nonblank_lines t) \<longrightarrow> ar_value (agent_line_items t) = Some [])
   \<and> line_row ''2 Widgets 10.00 1.30 11.30'' =
       Some \<lparr>qty = ''2'', description = ''2 Widgets 10.00 1.30 11.30'', coding = '''',
             unit_price = ''10.00'', tax = ''1.30'', line_total = ''11.30''\<rparr>"
proof -
  have ex: "line_row ''2 Widgets 10.00 1.30 11.30'' =
       Some \<lparr>qty = ''2'', description = ''2 Widgets 10.00 1.30 11.30'', coding = '''',
             unit_price = ''10.00'', tax = ''1.30'', line_total = ''11.30''\<rparr>"
    by code_simp
  have rows: "line_loop [] (nonblank_lines t) = List.map_filter line_row (nonblank_lines t)"
    by (simp add: line_loop_eq)
  have iff: "List.map_filter line_row (nonblank_lines t) = [] \<longleftrightarrow> \<not> list_ex qualifies (nonblank_lines t)"
    by (simp add: map_filter_Nil_iff line_row_Some_iff)
  have v: "ar_value (agent_line_items t) = Some (List.map_filter line_row (nonblank_lines t))"
    using rows by (simp add: agent_line_items_def Let_def nonblank_lines_def)
  have c: "confidence (agent_line_items t) = (if list_ex qualifies (nonblank_lines t) then 0.6 else 0.1)"
    using rows iff by (simp add: agent_line_items_def Let_def nonblank_lines_def)
  show ?thesis using ex v c iff by (simp add: line_row_eq)
qed

theorem line_item_rows_witness:
  "qualifies ''2 Widgets 10.00 1.30 11.30''
   \<and> map_option qty (line_row ''2 Widgets 10.00 1.30 11.30'') = Some (the (qty_token ''2 Widgets 10.00 1.30 11.30''))
   \<and> \<not> qualifies ''Widgets''
   \<and> line_row ''Widgets'' = None
   \<and> \<not> list_ex qualifies (nonblank_lines ''Widgets'')
   \<and> ar_value (agent_line_items ''Widgets'') = Some []"
proof -
  have q: "qualifies ''2 Widgets 10.00 1.30 11.30''" by code_simp
  have n: "\<not> qualifies ''Widgets''" by code_simp
  have l: "\<not> list_ex qualifies (nonblank_lines ''Widgets'')" by code_simp
  show ?thesis
    using q n l line_item_rows [of "''2 Widgets 10.00 1.30 11.30''" "''Widgets''"]
      line_item_rows [of "''Widgets''" "''Widgets''"]
    by simp
qed

text \<open>The description is not the truncated line as it stands: a line that starts with a
  blank loses it.\<close>

theorem line_description_stripped:
  "map_option description (line_row '' 2 Widgets 10.00'') = Some ''2 Widgets 10.00''
   \<and> map_option description (line_row '' 2 Widgets 10.00'') \<noteq> Some (take 80 '' 2 Widgets 10.00'')"
  by code_simp

subsection \<open>Money tokens and quantities\<close>

lemma seq_split:
  assumes "x \<in> set (rmatch ic (Seq a b) (p, s, g))"
  shows "\<exists>pm sm gm u. (pm, sm, gm) \<in> set (rmatch ic a (p, s, g)) \<and> s = u @ sm
     \<and> pm = prev_after p u \<and> x \<in> set (rmatch ic b (pm, sm, gm))"
proof -
  from assms obtain m where m: "m \<in> set (rmatch ic a (p, s, g))" "x \<in> set (rmatch ic b m)"
    by auto
  obtain pm sm gm where f: "m = (pm, sm, gm)" by (cases m)
  from rmatch_suffix [of pm sm gm ic a p s g] m(1) f obtain u where "s = u @ sm" "pm = prev_after p u"
    by blast
  with m f show ?thesis by blast
qed

lemma digit_word: "is_digit c \<Longrightarrow> is_word c"
  by (auto simp: is_digit_def is_word_def is_alnum_def Let_def)

lemma star_digits_complete:
  "\<forall>x\<in>set ds. is_digit x \<Longrightarrow>
   (prev_after p ds, rest, g) \<in> set (rmatch ic (Star Dgt) (p, ds @ rest, g))"
proof (induction ds arbitrary: p)
  case Nil
  show ?case using star_stop [of "(p, rest, g)" ic Dgt] by simp
next
  case (Cons x xs)
  have m: "(Some x, xs @ rest, g) \<in> set (rmatch ic Dgt (p, (x # xs) @ rest, g))"
    using Cons.prems by simp
  have ih: "(prev_after (Some x) xs, rest, g) \<in> set (rmatch ic (Star Dgt) (Some x, xs @ rest, g))"
    using Cons.IH [of "Some x"] Cons.prems by simp
  have "(prev_after (Some x) xs, rest, g) \<in> set (rmatch ic (Star Dgt) (p, (x # xs) @ rest, g))"
    by (rule star_step [OF m _ ih]) simp
  then show ?case by (simp add: prev_after_Cons)
qed

lemma plus_digits_complete:
  assumes "ds \<noteq> []" "\<forall>x\<in>set ds. is_digit x"
  shows "(Some (last ds), rest, g) \<in> set (rmatch ic (Plus Dgt) (p, ds @ rest, g))"
proof -
  from assms(1) obtain x xs where ds: "ds = x # xs" by (cases ds) auto
  have m: "(Some x, xs @ rest, g) \<in> set (rmatch ic Dgt (p, ds @ rest, g))"
    using assms(2) ds by simp
  have "(prev_after (Some x) xs, rest, g) \<in> set (rmatch ic (Star Dgt) (Some x, xs @ rest, g))"
    using star_digits_complete [of xs "Some x" rest g ic] assms(2) ds by simp
  moreover have "prev_after (Some x) xs = Some (last ds)"
    using ds by (simp add: prev_after_def)
  ultimately have "(Some (last ds), rest, g) \<in> set (rmatch ic (Star Dgt) (Some x, xs @ rest, g))"
    by simp
  from seq_mem [OF m this] show ?thesis by (simp add: Plus_def)
qed

lemma opt_skip: "st \<in> set (rmatch ic (Seq (Opt Y) Eps) st)"
  by (simp add: Opt_def)

lemma qty_complete:
  assumes "\<not> word_opt p" "ds \<noteq> []" "\<forall>x\<in>set ds. is_digit x" "\<not> word_opt (next_chr rest)"
  shows "rmatch False qty_re (p, ds @ rest, g) \<noteq> []"
proof -
  let ?Y = "seqs [Ch CHR ''.'', Plus Dgt]"
  let ?X = "Seq (Plus Dgt) (Seq (Opt ?Y) Eps)"
  let ?g = "g(1 \<mapsto> take (length (ds @ rest) - length rest) (ds @ rest))"
  have 1: "(Some (last ds), rest, g) \<in> set (rmatch False (Plus Dgt) (p, ds @ rest, g))"
    using assms(2,3) by (rule plus_digits_complete)
  have 2: "(Some (last ds), rest, g) \<in> set (rmatch False ?X (p, ds @ rest, g))"
    by (rule seq_mem [OF 1 opt_skip])
  have 3: "(Some (last ds), rest, ?g) \<in> set (rmatch False (Grp 1 ?X) (p, ds @ rest, g))"
    using 2 by (simp del: rmatch.simps(5)) force
  have lw: "is_word (last ds)" using assms(2,3) by (simp add: digit_word)
  have hw: "is_word (hd ds)" using assms(2,3) by (simp add: digit_word)
  have 4: "(Some (last ds), rest, ?g) \<in> set (rmatch False (Seq WordB Eps) (Some (last ds), rest, ?g))"
    using lw assms(4) by (simp add: word_opt_def)
  have 5: "(Some (last ds), rest, ?g) \<in> set (rmatch False (Seq (Grp 1 ?X) (Seq WordB Eps)) (p, ds @ rest, g))"
    by (rule seq_mem [OF 3 4])
  have 6: "(p, ds @ rest, g) \<in> set (rmatch False WordB (p, ds @ rest, g))"
    using assms(1,2) hw by (cases ds) (simp_all add: word_opt_def next_chr_def)
  have "(Some (last ds), rest, ?g) \<in> set (rmatch False (Seq WordB (Seq (Grp 1 ?X) (Seq WordB Eps))) (p, ds @ rest, g))"
    by (rule seq_mem [OF 6 5])
  then have "(Some (last ds), rest, ?g) \<in> set (rmatch False qty_re (p, ds @ rest, g))"
    by (simp only: qty_re_shape seqs_def foldr.simps o_apply id_apply)
  then show ?thesis by auto
qed

lemma wrap_inner:
  "(p', s', g') \<in> set (rmatch ic (Seq (NotBehind a) (Seq (Grp n X) (Seq (NotAhead b) Eps))) (p, s, g)) \<Longrightarrow>
   \<exists>gi. (p', s', gi) \<in> set (rmatch ic X (p, s, g))"
  by (auto split: if_splits)

lemma money_tail:
  "x \<in> set (rmatch False (seqs [Ch CHR ''.'', rep_n 2 Dgt]) (pm, sm, gm)) \<Longrightarrow>
   \<exists>d1 d2 s'. sm = CHR ''.'' # d1 # d2 # s' \<and> is_digit d1 \<and> is_digit d2 \<and> x = (Some d2, s', gm)"
  by (auto simp: seqs_def numeral_2_eq_2 split: list.splits if_splits)

lemma MONEY_PAT_shape:
  "MONEY_PAT = Seq (NotBehind Digit) (Seq (Grp 1 (Alt
      (Seq (rep_range 1 3 Dgt) (Seq (Star (seqs [Ch CHR '','', rep_n 3 Dgt]))
         (Seq (seqs [Ch CHR ''.'', rep_n 2 Dgt]) Eps)))
      (Seq (Plus Dgt) (seqs [Ch CHR ''.'', rep_n 2 Dgt]))))
    (Seq (NotAhead Digit) Eps))"
  by (simp add: MONEY_PAT_def seqs_def)

lemma star_digits_sound:
  "(p', s', g') \<in> set (rmatch ic (Star Dgt) (p, s, g)) \<Longrightarrow> \<exists>u. s = u @ s' \<and> (\<forall>x\<in>set u. is_digit x)"
proof (induction s arbitrary: p)
  case Nil
  then have "s' = []" using star_set [of "(p', s', g')" ic Dgt p "[]" g] by auto
  then show ?case by simp
next
  case (Cons c cs)
  from Cons.prems consider (stop) "s' = c # cs" |
    (step) pm sm gm where "(pm, sm, gm) \<in> set (rmatch ic Dgt (p, c # cs, g))"
      "(p', s', g') \<in> set (rmatch ic (Star Dgt) (pm, sm, gm))"
    using star_set [of "(p', s', g')" ic Dgt p "c # cs" g] by auto
  then show ?case
  proof cases
    case stop
    then show ?thesis by simp
  next
    case step
    from step(1) have c: "is_digit c" "sm = cs" "gm = g" by (auto split: if_splits)
    from Cons.IH [of pm] step(2) c obtain u where "cs = u @ s'" "\<forall>x\<in>set u. is_digit x" by blast
    then have "c # cs = (c # u) @ s' \<and> (\<forall>x\<in>set (c # u). is_digit x)" using c by simp
    then show ?thesis by blast
  qed
qed

lemma plus_digits_sound:
  assumes "(p', s', g') \<in> set (rmatch ic (Plus Dgt) (p, s, g))"
  shows "\<exists>u. s = u @ s' \<and> u \<noteq> [] \<and> (\<forall>x\<in>set u. is_digit x)"
proof -
  from assms obtain pm sm gm where
    m: "(pm, sm, gm) \<in> set (rmatch ic Dgt (p, s, g))" "(p', s', g') \<in> set (rmatch ic (Star Dgt) (pm, sm, gm))"
    unfolding Plus_def by auto
  from m(1) obtain c where c: "s = c # sm" "is_digit c" by (auto split: list.splits if_splits)
  from star_digits_sound [OF m(2)] obtain u where "sm = u @ s'" "\<forall>x\<in>set u. is_digit x" by blast
  then have "s = (c # u) @ s' \<and> c # u \<noteq> [] \<and> (\<forall>x\<in>set (c # u). is_digit x)" using c by simp
  then show ?thesis by blast
qed

lemma range13_digits_sound:
  assumes "(p', s', g') \<in> set (rmatch ic (rep_range 1 3 Dgt) (p, s, g))"
  shows "\<exists>u. s = u @ s' \<and> u \<noteq> [] \<and> (\<forall>x\<in>set u. is_digit x)"
proof -
  from assms consider
    (one) c where "s = [c] @ s'" "is_digit c" |
    (two) c e where "s = [c, e] @ s'" "is_digit c" "is_digit e" |
    (three) c e f where "s = [c, e, f] @ s'" "is_digit c" "is_digit e" "is_digit f"
    by (auto simp: rep_range_def Opt_def eval_nat_numeral split: list.splits if_splits)
  then show ?thesis
  proof cases
    case one
    then have "s = [c] @ s' \<and> [c] \<noteq> [] \<and> (\<forall>x\<in>set [c]. is_digit x)" by simp
    then show ?thesis by blast
  next
    case two
    then have "s = [c, e] @ s' \<and> [c, e] \<noteq> [] \<and> (\<forall>x\<in>set [c, e]. is_digit x)" by simp
    then show ?thesis by blast
  next
    case three
    then have "s = [c, e, f] @ s' \<and> [c, e, f] \<noteq> [] \<and> (\<forall>x\<in>set [c, e, f]. is_digit x)" by simp
    then show ?thesis by blast
  qed
qed

lemma star_first:
  assumes "(p', s', g') \<in> set (rmatch False (Star (Seq (Ch c) Z)) (p, s, g))"
  shows "s' = s \<or> (\<exists>t. s = c # t)"
proof -
  from assms consider (stop) "s' = s" |
    (step) pm sm gm where "(pm, sm, gm) \<in> set (rmatch False (Seq (Ch c) Z) (p, s, g))"
    using star_set [of "(p', s', g')" False "Seq (Ch c) Z" p s g] by auto
  then show ?thesis
  proof cases
    case stop
    then show ?thesis by simp
  next
    case step
    then show ?thesis by (auto split: list.splits if_splits)
  qed
qed

text \<open>A money token ends with a point and two digits, and starts with digits followed by a
  comma or a point.\<close>

lemma money_shape:
  assumes "(p', s', g') \<in> set (rmatch False MONEY_PAT (p, s, g))"
  shows "(\<exists>u d1 d2. s = u @ CHR ''.'' # d1 # d2 # s' \<and> is_digit d1 \<and> is_digit d2)
     \<and> (\<exists>ds c rest. s = ds @ c # rest \<and> ds \<noteq> [] \<and> (\<forall>x\<in>set ds. is_digit x) \<and> (c = CHR '','' \<or> c = CHR ''.''))"
proof -
  let ?T = "seqs [Ch CHR ''.'', rep_n 2 Dgt]"
  let ?S = "Star (seqs [Ch CHR '','', rep_n 3 Dgt])"
  let ?A = "Seq (rep_range 1 3 Dgt) (Seq ?S (Seq ?T Eps))"
  let ?B = "Seq (Plus Dgt) ?T"
  from assms obtain gi where "(p', s', gi) \<in> set (rmatch False (Alt ?A ?B) (p, s, g))"
    unfolding MONEY_PAT_shape using wrap_inner by blast
  then consider (A) "(p', s', gi) \<in> set (rmatch False ?A (p, s, g))"
    | (B) "(p', s', gi) \<in> set (rmatch False ?B (p, s, g))"
    by (auto simp del: rmatch.simps(5))
  then show ?thesis
  proof cases
    case A
    from seq_split [OF A] obtain p1 s1 g1 u1 where
      r1: "(p1, s1, g1) \<in> set (rmatch False (rep_range 1 3 Dgt) (p, s, g))" "s = u1 @ s1"
      and a1: "(p', s', gi) \<in> set (rmatch False (Seq ?S (Seq ?T Eps)) (p1, s1, g1))"
      by blast
    from seq_split [OF a1] obtain p2 s2 g2 u2 where
      r2: "(p2, s2, g2) \<in> set (rmatch False ?S (p1, s1, g1))" "s1 = u2 @ s2"
      and a2: "(p', s', gi) \<in> set (rmatch False (Seq ?T Eps) (p2, s2, g2))"
      by blast
    from seq_split [OF a2] obtain p3 s3 g3 where
      r3: "(p3, s3, g3) \<in> set (rmatch False ?T (p2, s2, g2))"
      and a3: "(p', s', gi) \<in> set (rmatch False Eps (p3, s3, g3))"
      by blast
    from a3 have e: "s3 = s'" by simp
    from money_tail [OF r3] e obtain d1 d2 where
      t: "s2 = CHR ''.'' # d1 # d2 # s'" "is_digit d1" "is_digit d2" by auto
    from range13_digits_sound [OF r1(1)] obtain ds where
      ds: "s = ds @ s1" "ds \<noteq> []" "\<forall>x\<in>set ds. is_digit x" by blast
    have "s1 = s2 \<or> (\<exists>t. s1 = CHR '','' # t)"
      using star_first [of p2 s2 g2 "CHR '',''" "Seq (rep_n 3 Dgt) Eps" p1 s1 g1] r2(1)
      by (auto simp: seqs_def)
    then obtain c rest where cr: "s1 = c # rest" "c = CHR '','' \<or> c = CHR ''.''"
      using t(1) by auto
    have 1: "s = (u1 @ u2) @ CHR ''.'' # d1 # d2 # s'" using r1(2) r2(2) t(1) by simp
    have 2: "s = ds @ c # rest" using ds(1) cr(1) by simp
    show ?thesis using 1 2 t(2,3) ds(2,3) cr(2) by blast
  next
    case B
    from seq_split [OF B] obtain p1 s1 g1 u1 where
      r1: "(p1, s1, g1) \<in> set (rmatch False (Plus Dgt) (p, s, g))" "s = u1 @ s1"
      and a1: "(p', s', gi) \<in> set (rmatch False ?T (p1, s1, g1))"
      by blast
    from money_tail [OF a1] obtain d1 d2 where
      t: "s1 = CHR ''.'' # d1 # d2 # s'" "is_digit d1" "is_digit d2" by auto
    from plus_digits_sound [OF r1(1)] obtain ds where
      ds: "s = ds @ s1" "ds \<noteq> []" "\<forall>x\<in>set ds. is_digit x" by blast
    have 1: "s = u1 @ CHR ''.'' # d1 # d2 # s'" using r1(2) t(1) by simp
    have 2: "s = ds @ CHR ''.'' # d1 # d2 # s'" using ds(1) t(1) by simp
    show ?thesis using 1 2 t(2,3) ds(2,3) by blast
  qed
qed

lemma not_word_point: "\<not> is_word CHR ''.''" "\<not> is_word CHR '',''"
  by (simp_all add: is_word_def is_alnum_def ord_def Let_def)

lemma re_search_complete:
  "rmatch ic r (prev_after None pre, rest, Map.empty) \<noteq> [] \<Longrightarrow> re_search ic r (pre @ rest) \<noteq> None"
  unfolding re_search_def by (rule search_from_complete)

lemma money_match_quantity:
  assumes m: "m \<in> set (money_matches line)" and d: "delimited m"
  shows "re_search False qty_re line \<noteq> None"
proof -
  from find_from_mem [of m False MONEY_PAT None line] m obtain pre where
    h: "line = pre @ matched m @ after m" "before m = prev_after None pre"
       "(after_prev m, after m, groups_of m)
          \<in> set (rmatch False MONEY_PAT (before m, matched m @ after m, Map.empty))"
    unfolding money_matches_def by blast
  from money_shape [OF h(3)] obtain u d1 d2 ds c rest where
    e: "matched m @ after m = u @ CHR ''.'' # d1 # d2 # after m" "is_digit d1" "is_digit d2" and
    b: "matched m @ after m = ds @ c # rest" "ds \<noteq> []" "\<forall>x\<in>set ds. is_digit x"
       "c = CHR '','' \<or> c = CHR ''.''"
    by blast
  from d consider (before) "\<not> word_opt (before m)" | (after) "\<not> word_opt (next_chr (after m))"
    unfolding delimited_def by blast
  then show ?thesis
  proof cases
    case before
    have nw: "\<not> word_opt (next_chr (c # rest))"
      using b(4) not_word_point by (auto simp: word_opt_def next_chr_def)
    have "rmatch False qty_re (prev_after None pre, ds @ c # rest, Map.empty) \<noteq> []"
      using before h(2) b(2,3) nw by (intro qty_complete) simp_all
    from re_search_complete [OF this] show ?thesis using h(1) b(1) by simp
  next
    case after
    have p: "prev_after None (pre @ u @ ''.'') = Some CHR ''.''" by (simp add: prev_after_def)
    have "rmatch False qty_re (prev_after None (pre @ u @ ''.''), [d1, d2] @ after m, Map.empty) \<noteq> []"
      unfolding p using after e(2,3) not_word_point(1)
      by (intro qty_complete) (simp_all add: word_opt_def)
    from re_search_complete [OF this] show ?thesis using h(1) e(1) by simp
  qed
qed

lemma money_tokens_matches: "money_tokens line = [] \<longleftrightarrow> money_matches line = []"
  by (simp add: money_tokens_def money_matches_def findall1_def)

text \<open>
  C10, as amended.  A line with a money-shaped token that is delimited on at least one
  side (not directly preceded, or not directly followed, by a word character)
  qualifies as a line-item row: the quantity pattern then matches inside the money
  token.  The line "Widgets 10.00", which has no separate quantity, gives a row whose
  qty is "10.00", the same as its unit price.
\<close>

theorem delimited_money_line_qualifies:
  "(list_ex delimited (money_matches line) \<longrightarrow> qualifies line \<and> line_row line \<noteq> None)
   \<and> line_row ''Widgets 10.00'' =
       Some \<lparr>qty = ''10.00'', description = ''Widgets 10.00'', coding = '''',
             unit_price = ''10.00'', tax = '''', line_total = ''10.00''\<rparr>"
proof -
  have ex: "line_row ''Widgets 10.00'' =
       Some \<lparr>qty = ''10.00'', description = ''Widgets 10.00'', coding = '''',
             unit_price = ''10.00'', tax = '''', line_total = ''10.00''\<rparr>"
    by code_simp
  have "qualifies line \<and> line_row line \<noteq> None" if "list_ex delimited (money_matches line)"
  proof -
    from that obtain m where m: "m \<in> set (money_matches line)" "delimited m"
      by (auto simp: list_ex_iff)
    from money_match_quantity [OF m] have q: "qty_token line \<noteq> None"
      by (simp add: qty_token_def)
    from m(1) have "money_tokens line \<noteq> []" by (auto simp: money_tokens_matches)
    with q have "qualifies line" by (simp add: qualifies_def)
    then show ?thesis by (simp add: line_row_eq)
  qed
  with ex show ?thesis by blast
qed

theorem delimited_money_line_qualifies_witness:
  "list_ex delimited (money_matches ''Widgets 10.00'') \<and> qualifies ''Widgets 10.00''
   \<and> line_row ''Widgets 10.00'' \<noteq> None"
proof -
  have "list_ex delimited (money_matches ''Widgets 10.00'')" by code_simp
  then show ?thesis using delimited_money_line_qualifies [of "''Widgets 10.00''"] by blast
qed

text \<open>A money token with a word character on both sides need not give a row.\<close>

theorem money_line_without_quantity:
  "strip ''a10.00b'' \<noteq> [] \<and> money_tokens ''a10.00b'' = [''10.00'']
   \<and> qty_token ''a10.00b'' = None \<and> line_row ''a10.00b'' = None
   \<and> ar_value (agent_line_items ''a10.00b'') = Some []"
  by code_simp

subsection \<open>Letter case and the invoice-number fallback\<close>

lemma lits_INV:
  "rmatch False (lits ''INV'') (p, s, g) =
     (if startswith ''INV'' s then [(Some CHR ''V'', drop 3 s, g)] else [])"
  by (auto simp: lits_def split: list.splits)

lemma seq_eps: "rmatch ic (Seq r Eps) st = rmatch ic r st"
proof -
  have "rmatch ic Eps = (\<lambda>x. [x])" by (rule ext) simp
  then show ?thesis by simp
qed

lemma star_cls_greedy:
  "rmatch ic (Star (Cls as)) (p, s, g) \<noteq> [] \<and>
   hd (rmatch ic (Star (Cls as)) (p, s, g)) =
     (prev_after p (takeWhile (\<lambda>c. list_ex (\<lambda>a. amatch ic a c) as) s),
      dropWhile (\<lambda>c. list_ex (\<lambda>a. amatch ic a c) as) s, g)"
proof (induction s arbitrary: p)
  case Nil
  show ?case by (subst (1 2) rmatch.simps(7)) simp
next
  case (Cons c cs)
  show ?case
  proof (cases "list_ex (\<lambda>a. amatch ic a c) as")
    case True
    have u: "rmatch ic (Star (Cls as)) (p, c # cs, g) =
        rmatch ic (Star (Cls as)) (Some c, cs, g) @ [(p, c # cs, g)]"
      using True by (subst rmatch.simps(7)) simp
    show ?thesis unfolding u using Cons.IH [of "Some c"] True
      by (simp add: prev_after_Cons)
  next
    case False
    have u: "rmatch ic (Star (Cls as)) (p, c # cs, g) = [(p, c # cs, g)]"
      using False by (subst rmatch.simps(7)) simp
    show ?thesis unfolding u using False by simp
  qed
qed

lemma plus_cls:
  "rmatch ic (Plus (Cls as)) (p, s, g) =
     (case s of [] \<Rightarrow> []
      | c # cs \<Rightarrow> if list_ex (\<lambda>a. amatch ic a c) as then rmatch ic (Star (Cls as)) (Some c, cs, g) else [])"
  by (simp add: Plus_def split: list.splits)

lemma wordish_cls: "list_ex (\<lambda>a. amatch False a c) [Word, Lit CHR ''-''] = wordish c"
  by (simp add: wordish_def)

lemma inv_re_shape: "inv_re = Seq (lits ''INV'') (Seq (Plus (Cls [Word, Lit CHR ''-''])) Eps)"
  by (simp add: inv_re_def seqs_def)

lemma inv_unfold:
  "rmatch False inv_re (p, s, g) =
     (if startswith ''INV'' s
      then rmatch False (Plus (Cls [Word, Lit CHR ''-''])) (Some CHR ''V'', drop 3 s, g) else [])"
proof -
  have f: "rmatch False (Seq PC Eps) = rmatch False PC" for PC
    by (rule ext) (rule seq_eps)
  show ?thesis unfolding inv_re_shape rmatch.simps(5) f lits_INV by simp
qed

lemma inv_no_match: "\<not> inv_start s \<Longrightarrow> rmatch False inv_re (p, s, g) = []"
  by (auto simp: inv_unfold plus_cls wordish_def inv_start_def split: list.splits)

lemma inv_match:
  assumes "inv_start s"
  shows "rmatch False inv_re (p, s, g) \<noteq> [] \<and>
     fst (snd (hd (rmatch False inv_re (p, s, g)))) = dropWhile wordish (drop 3 s)"
proof -
  from assms obtain c cs where d: "drop 3 s = c # cs" "wordish c" and sw: "startswith ''INV'' s"
    by (auto simp: inv_start_def split: list.splits)
  have e: "rmatch False inv_re (p, s, g) = rmatch False (Star (Cls [Word, Lit CHR ''-''])) (Some c, cs, g)"
    using d sw by (simp add: inv_unfold plus_cls wordish_def)
  have w: "wordish = (\<lambda>c. is_word c \<or> c = CHR ''-'')"
    by (rule ext) (simp add: wordish_def)
  show ?thesis
    unfolding e using star_cls_greedy [of False "[Word, Lit CHR ''-'']" "Some c" cs g] d
    by (simp add: w)
qed

lemma startswith_INV: "startswith ''INV'' s \<Longrightarrow> s = ''INV'' @ drop 3 s"
  by (auto split: list.splits)

lemma take_to_dropWhile:
  "take (length (a @ t) - length (dropWhile P t)) (a @ t) = a @ takeWhile P t"
proof -
  have "length (dropWhile P t) = length t - length (takeWhile P t)"
    using takeWhile_dropWhile_id [of P t] by (metis add_diff_cancel_left' length_append)
  moreover have "length (takeWhile P t) \<le> length t" by (rule length_takeWhile_le)
  ultimately have "length (a @ t) - length (dropWhile P t) = length a + length (takeWhile P t)"
    by simp
  then show ?thesis by (simp add: takeWhile_eq_take [symmetric])
qed

lemma inv_search:
  "map_option matched (search_from False inv_re skip p s) = first_inv_token s"
proof (induction s arbitrary: skip p)
  case Nil
  have "\<not> inv_start []" by (simp add: inv_start_def)
  then show ?case by (simp add: inv_no_match)
next
  case (Cons c cs)
  show ?case
  proof (cases "inv_start (c # cs)")
    case False
    then show ?thesis using Cons.IH by (simp add: inv_no_match)
  next
    case True
    let ?s = "c # cs"
    from inv_match [OF True, of p Map.empty] obtain st sts where
      r: "rmatch False inv_re (p, ?s, Map.empty) = st # sts"
         "fst (snd st) = dropWhile wordish (drop 3 ?s)"
      by (cases "rmatch False inv_re (p, ?s, Map.empty)") auto
    from True have sw: "startswith ''INV'' ?s" by (simp add: inv_start_def)
    from sw have eq: "?s = ''INV'' @ drop 3 ?s" by (rule startswith_INV)
    have "matched (mk_match skip p ?s st) = take (length ?s - length (dropWhile wordish (drop 3 ?s))) ?s"
      using r(2) by (cases st) (simp add: mk_match_def)
    also have "\<dots> = take (length (''INV'' @ drop 3 ?s) - length (dropWhile wordish (drop 3 ?s))) (''INV'' @ drop 3 ?s)"
      using eq by simp
    also have "\<dots> = ''INV'' @ takeWhile wordish (drop 3 ?s)"
      by (rule take_to_dropWhile)
    finally have "matched (mk_match skip p ?s st) = ''INV'' @ takeWhile wordish (drop 3 ?s)" .
    then show ?thesis using True r(1) by simp
  qed
qed

lemma inv_findall_none:
  assumes "first_inv_token t = None"
  shows "findall0 False inv_re t = []"
proof -
  from inv_search [of "[]" None t] assms have "search_from False inv_re [] None t = None"
    by simp
  then show ?thesis by (simp add: findall0_def find_from.simps [of False inv_re None t])
qed

lemma inv_findall_some:
  assumes "first_inv_token t = Some tok"
  shows "\<exists>more. findall0 False inv_re t = tok # more"
proof -
  from inv_search [of "[]" None t] assms obtain m where
    m: "search_from False inv_re [] None t = Some m" "matched m = tok"
    by auto
  then show ?thesis by (simp add: findall0_def find_from.simps [of False inv_re None t])
qed

lemma ord_eq_iff: "ord a = ord b \<longleftrightarrow> a = b"
  by (simp add: ord_def)

lemma ord_lt_256: "ord c < 256"
  by (simp add: ord_def)

lemma lower_chr_idem: "lower_chr (lower_chr c) = lower_chr c"
  using ord_lt_256 [of c] unfolding ord_eq_iff [symmetric] ord_lower_chr by auto

lemma lower_chr_uncased: "uncased c \<Longrightarrow> lower_chr x = c \<longleftrightarrow> x = c"
  using ord_lt_256 [of x] unfolding ord_eq_iff [symmetric] ord_lower_chr uncased_def Let_def by auto

lemma is_digit_lower_chr: "is_digit (lower_chr c) = is_digit c"
  unfolding is_digit_def ord_lower_chr by auto

lemma is_word_lower_chr: "is_word (lower_chr c) = is_word c"
proof -
  have a: "is_alnum (lower_chr c) = is_alnum c"
    unfolding is_alnum_def Let_def ord_lower_chr by auto
  have b: "lower_chr c = CHR ''_'' \<longleftrightarrow> c = CHR ''_''"
    by (rule lower_chr_uncased) (simp add: uncased_def ord_def)
  show ?thesis by (simp add: is_word_def a b)
qed

lemma newline_lower_chr: "ord (lower_chr c) = 10 \<longleftrightarrow> ord c = 10"
  unfolding ord_lower_chr by auto

lemma amatch_lower_chr:
  assumes "atom_ci ic a"
  shows "amatch ic a (lower_chr c) = amatch ic a c"
proof (cases a)
  case (Lit x)
  show ?thesis
  proof (cases ic)
    case True
    with Lit show ?thesis by (simp add: lower_chr_idem)
  next
    case False
    with assms Lit have "uncased x" by simp
    from lower_chr_uncased [OF this, of c] False Lit show ?thesis by simp
  qed
qed (simp_all add: is_digit_lower_chr is_word_lower_chr)

lemma list_ex_lower_chr:
  "list_all (atom_ci ic) as \<Longrightarrow>
   list_ex (\<lambda>a. amatch ic a (lower_chr c)) as = list_ex (\<lambda>a. amatch ic a c) as"
  by (induction as) (auto simp: amatch_lower_chr)

lemma word_opt_lower: "word_opt (map_option lower_chr p) = word_opt p"
  by (cases p) (simp_all add: word_opt_def is_word_lower_chr)

lemma next_chr_lower: "next_chr (lower s) = map_option lower_chr (next_chr s)"
  by (cases s) (simp_all add: next_chr_def lower_def)

lemma atom_opt_lower: "atom_ci False a \<Longrightarrow> atom_opt a (map_option lower_chr p) = atom_opt a p"
  by (cases p) (simp_all add: atom_opt_def amatch_lower_chr)

lemma lower_state_simp [simp]:
  "lower_state (p, s, g) = (map_option lower_chr p, lower s, map_option lower \<circ> g)"
  by (simp add: lower_state_def)

lemma lower_Cons [simp]: "lower (c # cs) = lower_chr c # lower cs"
  by (simp add: lower_def)

lemma lower_Nil [simp]: "lower [] = []"
  by (simp add: lower_def)

lemma length_lower [simp]: "length (lower s) = length s"
  by (simp add: lower_def)

lemma lower_take: "lower (take n s) = take n (lower s)"
  by (simp add: lower_def take_map)

lemma rmatch_lower:
  "caseless ic r \<Longrightarrow> rmatch ic r (lower_state st) = map lower_state (rmatch ic r st)"
proof (induction ic r st rule: rmatch.induct)
  case (1 ic st)
  show ?case by simp
next
  case (2 ic p s g)
  show ?case by (cases s) (simp_all add: newline_lower_chr)
next
  case (3 ic a p s g)
  then show ?case by (cases s) (simp_all add: amatch_lower_chr)
next
  case (4 ic as p s g)
  then show ?case by (cases s) (simp_all add: list_ex_lower_chr)
next
  case (5 ic a b st)
  from "5.prems" have ca: "caseless ic a" and cb: "caseless ic b" by simp_all
  have "rmatch ic (Seq a b) (lower_state st) = concat (map (rmatch ic b) (map lower_state (rmatch ic a st)))"
    using "5.IH"(1) [OF ca] by simp
  also have "\<dots> = concat (map (\<lambda>x. map lower_state (rmatch ic b x)) (rmatch ic a st))"
    using "5.IH"(2) [OF _ cb] by (simp add: o_def cong: map_cong)
  also have "\<dots> = map lower_state (rmatch ic (Seq a b) st)"
    by (simp add: map_concat o_def)
  finally show ?case .
next
  case (6 ic a b st)
  then show ?case by simp
next
  case (7 ic r p s g)
  from "7.prems" have cr: "caseless ic r" by simp
  let ?F = "\<lambda>s0 (p', s', g'). if length s' < length s0 then rmatch ic (Star r) (p', s', g') else []"
  have ih2: "?F (lower s) (lower_state x) = map lower_state (?F s x)" if "x \<in> set (rmatch ic r (p, s, g))" for x
  proof (cases x)
    case (fields p' s' g')
    show ?thesis
    proof (cases "length s' < length s")
      case True
      from "7.IH"(2) [OF that fields [symmetric] refl True "7.prems"] True fields
      show ?thesis by simp
    next
      case False
      with fields show ?thesis by simp
    qed
  qed
  have "rmatch ic (Star r) (lower_state (p, s, g)) =
      concat (map (?F (lower s)) (rmatch ic r (lower_state (p, s, g)))) @ [lower_state (p, s, g)]"
    by (simp add: rmatch.simps(7))
  also have "rmatch ic r (lower_state (p, s, g)) = map lower_state (rmatch ic r (p, s, g))"
    by (rule "7.IH"(1) [OF cr])
  also have "concat (map (?F (lower s)) (map lower_state (rmatch ic r (p, s, g)))) =
      concat (map (\<lambda>x. map lower_state (?F s x)) (rmatch ic r (p, s, g)))"
    using ih2 by (simp add: o_def cong: map_cong)
  also have "\<dots> @ [lower_state (p, s, g)] = map lower_state (rmatch ic (Star r) (p, s, g))"
    by (simp add: rmatch.simps(7) map_concat o_def)
  finally show ?case .
next
  case (8 ic n r p s g)
  from "8.prems" have cr: "caseless ic r" by simp
  show ?case
    using "8.IH" [OF cr] by (auto simp: lower_take fun_eq_iff)
next
  case (9 ic p s g)
  show ?case by (simp add: word_opt_lower next_chr_lower)
next
  case (10 ic a p s g)
  then show ?case by (simp add: atom_opt_lower)
next
  case (11 ic a p s g)
  then show ?case by (simp add: atom_opt_lower next_chr_lower)
qed

lemma lower_append: "lower (a @ b) = lower a @ lower b"
  by (simp add: lower_def)

lemma mk_match_lower:
  "mk_match (lower skip) (map_option lower_chr p) (lower s) (lower_state st) =
   lower_match (mk_match skip p s st)"
  by (cases st) (simp add: mk_match_def lower_match_def lower_take)

lemma rmatch_lower_start:
  assumes "caseless ic r"
  shows "rmatch ic r (map_option lower_chr p, lower s, Map.empty) =
     map lower_state (rmatch ic r (p, s, Map.empty))"
proof -
  have "lower_state (p, s, Map.empty) = (map_option lower_chr p, lower s, Map.empty)"
    by (simp add: fun_eq_iff)
  with rmatch_lower [OF assms, of "(p, s, Map.empty)"] show ?thesis by simp
qed

lemma search_from_lower:
  assumes "caseless ic r"
  shows "search_from ic r (lower skip) (map_option lower_chr p) (lower s) =
     map_option lower_match (search_from ic r skip p s)"
proof (induction s arbitrary: skip p)
  case Nil
  show ?case
    using rmatch_lower_start [OF assms, of p "[]"] mk_match_lower [of skip p "[]"]
    by (cases "rmatch ic r (p, [], Map.empty)") simp_all
next
  case (Cons c cs)
  show ?case
  proof (cases "rmatch ic r (p, c # cs, Map.empty)")
    case Nil
    then have "rmatch ic r (map_option lower_chr p, lower_chr c # lower cs, Map.empty) = []"
      using rmatch_lower_start [OF assms, of p "c # cs"] by simp
    then show ?thesis
      using Nil Cons.IH [of "skip @ [c]" "Some c"] by (simp add: lower_append)
  next
    case (Cons st sts)
    then have "rmatch ic r (map_option lower_chr p, lower_chr c # lower cs, Map.empty) =
        lower_state st # map lower_state sts"
      using rmatch_lower_start [OF assms, of p "c # cs"] by simp
    then show ?thesis
      using Cons mk_match_lower [of skip p "c # cs" st] by simp
  qed
qed

lemma find_from_lower:
  "caseless ic r \<Longrightarrow>
   find_from ic r (map_option lower_chr p) (lower s) = map lower_match (find_from ic r p s)"
proof (induction ic r p s rule: find_from.induct)
  case (1 ic r p s)
  have s: "search_from ic r [] (map_option lower_chr p) (lower s) =
      map_option lower_match (search_from ic r [] p s)"
    using search_from_lower [OF "1.prems", of "[]" p s] by simp
  show ?case
  proof (cases "search_from ic r [] p s")
    case None
    then show ?thesis using s
      by (simp add: find_from.simps [of ic r p s] find_from.simps [of ic r "map_option lower_chr p" "lower s"])
  next
    case (Some m)
    have f: "after (lower_match m) = lower (after m)"
      "after_prev (lower_match m) = map_option lower_chr (after_prev m)"
      by (simp_all add: lower_match_def)
    show ?thesis
    proof (cases "length (after m) < length s")
      case True
      from "1.IH" [OF Some True "1.prems"] show ?thesis using s Some True f
        by (simp add: find_from.simps [of ic r p s] find_from.simps [of ic r "map_option lower_chr p" "lower s"])
    next
      case False
      then show ?thesis using s Some f
        by (simp add: find_from.simps [of ic r p s] find_from.simps [of ic r "map_option lower_chr p" "lower s"])
    qed
  qed
qed

lemma caseless_lits: "caseless True (lits label)"
  by (induction label) (simp_all add: lits_def)

lemma caseless_seqs: "caseless ic (seqs rs) = list_all (caseless ic) rs"
  by (induction rs) (simp_all add: seqs_def)

lemma caseless_derived [simp]:
  "caseless ic (Opt r) = caseless ic r"
  "caseless ic (Plus r) = caseless ic r"
  "caseless ic (rep_n n Dgt)"
  "caseless ic (rep_upto n Dgt)"
  "caseless ic (rep_range lo hi Dgt)"
proof -
  show "caseless ic (Opt r) = caseless ic r" by (simp add: Opt_def)
  show "caseless ic (Plus r) = caseless ic r" by (simp add: Plus_def)
  show a: "caseless ic (rep_n n Dgt)" for n by (induction n) simp_all
  show b: "caseless ic (rep_upto n Dgt)" for n by (induction n) (simp_all add: Opt_def)
  show "caseless ic (rep_range lo hi Dgt)" by (simp add: rep_range_def a b)
qed

lemma uncased_punct:
  "uncased CHR ''/''" "uncased CHR ''-''" "uncased CHR '',''" "uncased CHR ''.''"
  by (simp_all add: uncased_def ord_def)

lemma invoice_re_caseless: "caseless True invoice_re"
  by (simp add: invoice_re_def caseless_seqs caseless_lits)

text \<open>The labelled pattern of the invoice-number agent ignores letter case: on the
  lowercased text it finds the lowercased match.\<close>

lemma invoice_pattern_ignores_case:
  "re_search True invoice_re (lower t) = map_option lower_match (re_search True invoice_re t)"
  using search_from_lower [OF invoice_re_caseless, of "[]" None t] by (simp add: re_search_def)

text \<open>What the fallback of the agent computes, as the code has it: where the labelled
  pattern has no match, the first token with the prefix \<open>INV\<close> in upper case.\<close>

lemma invoice_fallback_first_token:
  assumes no: "re_search True invoice_re t = None"
  shows "agent_invoice_number t =
        (case first_inv_token t of
           Some tok \<Rightarrow> \<lparr>ar_value = Some tok, confidence = 0.5, meta = [(''source'', MStr ''inv'')]\<rparr>
         | None \<Rightarrow> \<lparr>ar_value = None, confidence = 0.0, meta = [(''source'', MStr ''none'')]\<rparr>)"
proof (cases "first_inv_token t")
  case None
  from inv_findall_none [OF None] show ?thesis
    by (simp add: agent_invoice_number_def no None)
next
  case (Some tok)
  from inv_findall_some [OF Some] obtain more where "findall0 False inv_re t = tok # more"
    by blast
  then show ?thesis by (simp add: agent_invoice_number_def no Some)
qed

text \<open>
  C6.  Regex matching in the field agents is to ignore letter case, so that on a text
  without invoice label the fallback of the invoice-number agent returns a token with
  the prefix INV in any letter case, with confidence 0.5.  The code does not do so: the
  text "inv-001" has no invoice label, and the agent returns no value with confidence
  0.0 for it, whereas it returns "INV-001" with confidence 0.5 for the same token in
  upper case.
\<close>

theorem lowercase_inv_not_found:
  "\<not> contains ''invoice'' (lower ''inv-001'')
   \<and> agent_invoice_number ''inv-001'' =
       \<lparr>ar_value = None, confidence = 0.0, meta = [(''source'', MStr ''none'')]\<rparr>
   \<and> agent_invoice_number ''INV-001'' =
       \<lparr>ar_value = Some ''INV-001'', confidence = 0.5, meta = [(''source'', MStr ''inv'')]\<rparr>"
  by code_simp

subsection \<open>The scanned patterns\<close>

text \<open>The patterns that \<open>findall\<close> and \<open>sub\<close> scan consume at least one character in
  every match, as the model of the scan assumes.\<close>

lemma money_consumes:
  assumes "(p', s', g') \<in> set (rmatch False MONEY_PAT (p, s, g))"
  shows "length s' < length s"
proof -
  from money_shape [OF assms] obtain u d1 d2 where "s = u @ CHR ''.'' # d1 # d2 # s'"
    by blast
  then show ?thesis by simp
qed

lemma inv_consumes:
  assumes "(p', s', g') \<in> set (rmatch False inv_re (p, s, g))"
  shows "length s' < length s"
proof -
  from assms have sw: "startswith ''INV'' s" and
    m: "(p', s', g') \<in> set (rmatch False (Plus (Cls [Word, Lit CHR ''-''])) (Some CHR ''V'', drop 3 s, g))"
    by (auto simp: inv_unfold split: if_splits)
  from rmatch_suffix [OF m] obtain u where u: "drop 3 s = u @ s'" by blast
  from sw obtain t where t: "s = ''INV'' @ t" "drop 3 s = t" by (auto split: list.splits)
  from u t(2) have "s = ''INV'' @ u @ s'" using t(1) by simp
  then have "length s = 3 + length u + length s'" by simp
  then show ?thesis by simp
qed

lemma spaces_consume:
  assumes "(p', s', g') \<in> set (rmatch ic (Plus Spc) (p, s, g))"
  shows "length s' < length s"
proof -
  from assms have "(p', s', g') \<in> set (rmatch ic (Seq Spc (Star Spc)) (p, s, g))"
    by (simp add: Plus_def)
  from seq_split [OF this] obtain pm sm gm where
    a: "(pm, sm, gm) \<in> set (rmatch ic Spc (p, s, g))" and
    b: "(p', s', g') \<in> set (rmatch ic (Star Spc) (pm, sm, gm))"
    by blast
  from a obtain c where "s = c # sm" by (auto split: list.splits if_splits)
  moreover from rmatch_suffix [OF b] obtain u where "sm = u @ s'" by blast
  ultimately show ?thesis by simp
qed

end
